theory Spec2Isabelle
  imports Complex_Main "HOL-Library.Word" "HOL-Library.Log_Nat"
begin

unbundle bit_operations_syntax

section \<open>The base32z encoder of \<^verbatim>\<open>src/common/loki.cpp\<close>\<close>

text \<open>
  Everything the C++ leaves undefined or aborts on is a value of \<open>error\<close>:
  \<^item> \<open>AssertionFailed\<close>: the \<^verbatim>\<open>assert(src.size() <= 64)\<close> of \<^verbatim>\<open>hex64_to_base32z\<close>;
  \<^item> \<open>OutOfBounds\<close>: an element access outside a vector or an array
    (\<^verbatim>\<open>value[0]\<close> on an empty vector, \<^verbatim>\<open>exp_table[128 + m]\<close> outside 0..256);
  \<^item> \<open>ShiftOutOfRange\<close>: a shift of an \<^verbatim>\<open>int\<close> by a negative amount or by 32 or more;
  \<^item> \<open>Unterminated\<close>: a \<^verbatim>\<open>char const *\<close> read as a C string (up to the first NUL)
    when the array it points into holds no NUL;
  \<^item> \<open>BadIntConversion\<close>: a \<^verbatim>\<open>double\<close> converted to \<^verbatim>\<open>int\<close> whose truncated value is
    not an \<^verbatim>\<open>int\<close> (or is no number at all);
  \<^item> \<open>SignedOverflow\<close>: \<^verbatim>\<open>int\<close> arithmetic whose result is not an \<^verbatim>\<open>int\<close>.
\<close>

datatype error =
  AssertionFailed | OutOfBounds | ShiftOutOfRange | Unterminated | BadIntConversion | SignedOverflow

text \<open>\<^verbatim>\<open>static const char zbase32_alpha[]\<close>, 32 symbols.\<close>

definition zbase32_alpha :: "char list" where
  "zbase32_alpha =
     [CHR ''y'', CHR ''b'', CHR ''n'', CHR ''d'', CHR ''r'', CHR ''f'', CHR ''g'', CHR ''8'',
      CHR ''e'', CHR ''j'', CHR ''k'', CHR ''m'', CHR ''c'', CHR ''p'', CHR ''q'', CHR ''x'',
      CHR ''o'', CHR ''t'', CHR ''1'', CHR ''u'', CHR ''w'', CHR ''i'', CHR ''s'', CHR ''z'',
      CHR ''a'', CHR ''3'', CHR ''4'', CHR ''5'', CHR ''h'', CHR ''7'', CHR ''6'', CHR ''9'']"

text \<open>
  The body of the \<^verbatim>\<open>if (bits < 5)\<close> block of \<^verbatim>\<open>base32z_encode\<close>: it returns the new
  \<open>(tmp, pos, bits)\<close>. \<^verbatim>\<open>tmp\<close> is a 32-bit \<^verbatim>\<open>int\<close>; its left shift keeps the low 32 bits
  (two's complement, as C++20 defines it), \<^verbatim>\<open>value[pos]\<close> is a \<^verbatim>\<open>uint8_t\<close> read under
  the guard \<^verbatim>\<open>pos < len\<close>.
\<close>

definition refill :: "8 word list \<Rightarrow> 32 word \<Rightarrow> nat \<Rightarrow> int \<Rightarrow> error + (32 word \<times> nat \<times> int)" where
  "refill val tmp pos bits =
     (if bits < 5 then
        (if pos < length val then
           Inr (push_bit 8 tmp OR (ucast (val ! pos) AND 0xFF), pos + 1, bits + 8)
         else if 5 - bits < 0 \<or> 32 \<le> 5 - bits then Inl ShiftOutOfRange
         else Inr (push_bit (nat (5 - bits)) tmp, pos, 5))
      else Inr (tmp, pos, bits))"

text \<open>
  The \<^verbatim>\<open>while\<close> loop of \<^verbatim>\<open>base32z_encode\<close>, from the state \<open>(ret, pos, bits, tmp)\<close> and
  the buffer \<open>stack\<close>; \<^verbatim>\<open>sizeof(stack)\<close> is the number of \<^verbatim>\<open>char\<close>s of the array. The
  result is the returned pointer: \<open>None\<close> for \<^verbatim>\<open>nullptr\<close>, \<open>Some buf\<close> for \<^verbatim>\<open>&stack[0]\<close>
  with the array's contents at the return.
\<close>

function base32z_loop ::
  "8 word list \<Rightarrow> nat \<Rightarrow> nat \<Rightarrow> int \<Rightarrow> 32 word \<Rightarrow> char list \<Rightarrow> error + char list option" where
  "base32z_loop val ret pos bits tmp stack =
     (if ret < length stack \<and> (bits > 0 \<or> pos < length val) then
        (case refill val tmp pos bits of
           Inl e \<Rightarrow> Inl e
         | Inr (tmp1, pos1, bits1) \<Rightarrow>
             (let bits2 = bits1 - 5 in
              if bits2 < 0 \<or> 32 \<le> bits2 then Inl ShiftOutOfRange
              else
                (let ind = unat (signed_drop_bit (nat bits2) tmp1 AND 0x1F) in
                 if ret < length stack then
                   base32z_loop val (ret + 1) pos1 bits2 tmp1 (stack[ret := zbase32_alpha ! ind])
                 else Inr None)))
      else Inr (Some stack))"
  by pat_completeness auto
termination
  by (relation "measure (\<lambda>(val, ret, pos, bits, tmp, stack). length stack - ret)") auto

declare base32z_loop.simps [simp del]

text \<open>\<^verbatim>\<open>base32z_encode(value, stack)\<close>: \<^verbatim>\<open>tmp = value[0]\<close> is read before any test of the length.\<close>

definition base32z_encode :: "8 word list \<Rightarrow> char list \<Rightarrow> error + char list option" where
  "base32z_encode val stack =
     (if val = [] then Inl OutOfBounds
      else base32z_loop val 0 1 8 (ucast (val ! 0)) stack)"

text \<open>The lambda of \<^verbatim>\<open>hex64_to_base32z\<close>: one \<^verbatim>\<open>uint8_t\<close> for one character.\<close>

definition hex_digit :: "char \<Rightarrow> 8 word" where
  "hex_digit ch =
     (if (48::nat) \<le> of_char ch \<and> of_char ch \<le> (57::nat) then of_nat (of_char ch - 48)
      else if (65::nat) \<le> of_char ch \<and> of_char ch \<le> (70::nat) then of_nat (of_char ch - 55)
      else if (97::nat) \<le> of_char ch \<and> of_char ch \<le> (102::nat) then of_nat (of_char ch - 87)
      else 0)"

text \<open>\<^verbatim>\<open>std::transform(first, last, std::back_inserter(bin), f)\<close>: the loop that appends.\<close>

fun transform :: "'a list \<Rightarrow> 'b list \<Rightarrow> ('a \<Rightarrow> 'b) \<Rightarrow> 'b list" where
  "transform [] bin f = bin"
| "transform (ch # rest) bin f = transform rest (bin @ [f ch]) f"

text \<open>
  \<^verbatim>\<open>result = dest\<close> with \<^verbatim>\<open>dest\<close> a \<^verbatim>\<open>char const *\<close> into the array: the characters before
  the first NUL. An array without a NUL is read past its end.
\<close>

definition c_string :: "char list \<Rightarrow> error + string" where
  "c_string buf =
     (if CHR 0x00 \<in> set buf then Inr (takeWhile (\<lambda>c. c \<noteq> CHR 0x00) buf)
      else Inl Unterminated)"

definition hex64_to_base32z :: "string \<Rightarrow> error + string" where
  "hex64_to_base32z src =
     (if \<not> length src \<le> 64 then Inl AssertionFailed
      else
        (let bin = transform src [] hex_digit;
             buf = replicate 64 (CHR 0x00)
         in case base32z_encode bin buf of
              Inl e \<Rightarrow> Inl e
            | Inr None \<Rightarrow> Inr []
            | Inr (Some dest) \<Rightarrow> c_string dest))"

text \<open>
  The number of symbols the loop still has to emit from \<open>(pos, bits)\<close> when the buffer
  has room: the unread bits, in groups of five, the last one padded.
\<close>

definition symbols_left :: "8 word list \<Rightarrow> nat \<Rightarrow> int \<Rightarrow> nat" where
  "symbols_left val pos bits = (nat bits + 8 * (length val - pos) + 4) div 5"

section \<open>IEEE-754 binary64 arithmetic\<close>

text \<open>
  The source asserts \<^verbatim>\<open>std::numeric_limits<double>::is_iec559\<close>, and \<^verbatim>\<open>loki::round\<close> stores
  every intermediate result in a \<^verbatim>\<open>volatile double\<close>: a \<^verbatim>\<open>double\<close> is an IEEE-754 binary64
  value and every operation is rounded to binary64 on its own, to nearest with ties to even
  (the default rounding mode; the code never changes it). A \<open>double\<close> is a finite value
  \<open>Fin v\<close> with \<open>v\<close> the rational it stands for (\<open>Fin 0\<close> is \<open>+0.0\<close>), the negative zero, an
  infinity or a NaN.
\<close>

datatype double = Fin rat | NegZero | PInf | NInf | NaN

text \<open>\<open>ilog2 v\<close> is \<open>\<lfloor>log\<^sub>2 v\<rfloor>\<close> for a positive rational \<open>v\<close>, computed on integers.\<close>

definition ilog2 :: "rat \<Rightarrow> int" where
  "ilog2 v = (if 1 \<le> v then bitlen \<lfloor>v\<rfloor> - 1 else - bitlen (\<lceil>1 / v\<rceil> - 1))"

text \<open>
  The exponent of the spacing of the binary64 values around \<open>v \<noteq> 0\<close>: 53 significant bits,
  and the spacing \<open>2 powi (- 1074)\<close> of the subnormal numbers at the bottom.
\<close>

definition ulp_exp :: "rat \<Rightarrow> int" where
  "ulp_exp v = max (ilog2 \<bar>v\<bar> - 52) (- 1074)"

text \<open>Rounding to the nearest integer, a tie to the even one.\<close>

definition rne :: "rat \<Rightarrow> int" where
  "rne s =
     (let f = \<lfloor>s\<rfloor>; d = s - of_int f
      in if d < 1 / 2 then f else if 1 / 2 < d then f + 1 else if even f then f else f + 1)"

text \<open>
  The binary64 value of an exact result \<open>v\<close>: rounded on the grid of spacing
  \<open>2 powi ulp_exp v\<close>, an infinity from \<open>2 ^ 1024\<close> on, a zero with the sign of \<open>v\<close> on underflow.
  An exact zero is \<open>+0.0\<close> here; the operations below give the zeros of exact zero operands
  their signs.
\<close>

definition round_double :: "rat \<Rightarrow> double" where
  "round_double v =
     (if v = 0 then Fin 0
      else
        (let q = ulp_exp v; r = of_int (rne (v / 2 powi q)) * 2 powi q
         in if 2 ^ 1024 \<le> \<bar>r\<bar> then (if 0 < v then PInf else NInf)
            else if r = 0 then (if v < 0 then NegZero else Fin 0)
            else Fin r))"

text \<open>The rationals that are binary64 values, and the finite doubles.\<close>

definition is_double :: "rat \<Rightarrow> bool" where
  "is_double v = (v = 0 \<or> (v / 2 powi ulp_exp v \<in> \<int> \<and> \<bar>v\<bar> < 2 ^ 1024))"

fun finite_double :: "double \<Rightarrow> bool" where
  "finite_double (Fin v) = is_double v"
| "finite_double NegZero = True"
| "finite_double d = False"

fun fneg :: "double \<Rightarrow> double" where
  "fneg (Fin v) = (if v = 0 then NegZero else Fin (- v))"
| "fneg NegZero = Fin 0"
| "fneg PInf = NInf"
| "fneg NInf = PInf"
| "fneg NaN = NaN"

fun sign_bit :: "double \<Rightarrow> bool" where
  "sign_bit (Fin v) = (v < 0)"
| "sign_bit NegZero = True"
| "sign_bit PInf = False"
| "sign_bit NInf = True"
| "sign_bit NaN = False"

fun is_zero :: "double \<Rightarrow> bool" where
  "is_zero (Fin v) = (v = 0)"
| "is_zero NegZero = True"
| "is_zero d = False"

fun is_inf :: "double \<Rightarrow> bool" where
  "is_inf PInf = True"
| "is_inf NInf = True"
| "is_inf d = False"

fun rat_of :: "double \<Rightarrow> rat" where
  "rat_of (Fin v) = v"
| "rat_of d = 0"

definition signed_zero :: "bool \<Rightarrow> double" where
  "signed_zero s = (if s then NegZero else Fin 0)"

definition signed_inf :: "bool \<Rightarrow> double" where
  "signed_inf s = (if s then NInf else PInf)"

text \<open>Addition: \<open>(-0) + (-0) = -0\<close>, every other exact zero sum is \<open>+0\<close>.\<close>

fun fadd :: "double \<Rightarrow> double \<Rightarrow> double" where
  "fadd NaN b = NaN"
| "fadd a NaN = NaN"
| "fadd PInf NInf = NaN"
| "fadd NInf PInf = NaN"
| "fadd PInf b = PInf"
| "fadd NInf b = NInf"
| "fadd a PInf = PInf"
| "fadd a NInf = NInf"
| "fadd NegZero NegZero = NegZero"
| "fadd NegZero (Fin b) = Fin b"
| "fadd (Fin a) NegZero = Fin a"
| "fadd (Fin a) (Fin b) = round_double (a + b)"

definition fsub :: "double \<Rightarrow> double \<Rightarrow> double" where
  "fsub a b = fadd a (fneg b)"

definition fmul :: "double \<Rightarrow> double \<Rightarrow> double" where
  "fmul a b =
     (if a = NaN \<or> b = NaN then NaN
      else if is_inf a \<or> is_inf b then
        (if is_zero a \<or> is_zero b then NaN else signed_inf (sign_bit a \<noteq> sign_bit b))
      else if is_zero a \<or> is_zero b then signed_zero (sign_bit a \<noteq> sign_bit b)
      else round_double (rat_of a * rat_of b))"

definition fdiv :: "double \<Rightarrow> double \<Rightarrow> double" where
  "fdiv a b =
     (if a = NaN \<or> b = NaN then NaN
      else if is_inf a then (if is_inf b then NaN else signed_inf (sign_bit a \<noteq> sign_bit b))
      else if is_inf b then signed_zero (sign_bit a \<noteq> sign_bit b)
      else if is_zero b then (if is_zero a then NaN else signed_inf (sign_bit a \<noteq> sign_bit b))
      else if is_zero a then signed_zero (sign_bit a \<noteq> sign_bit b)
      else round_double (rat_of a / rat_of b))"

text \<open>\<^verbatim>\<open>a < b\<close> and \<^verbatim>\<open>a > b\<close>: false when an operand is a NaN; the two zeros are equal.\<close>

fun flt :: "double \<Rightarrow> double \<Rightarrow> bool" where
  "flt NaN b = False"
| "flt a NaN = False"
| "flt a NInf = False"
| "flt PInf b = False"
| "flt NInf b = True"
| "flt a PInf = True"
| "flt a b = (rat_of a < rat_of b)"

definition fgt :: "double \<Rightarrow> double \<Rightarrow> bool" where
  "fgt a b = flt b a"

text \<open>
  Conversions: \<^verbatim>\<open>(double) i\<close> of an \<^verbatim>\<open>int\<close> and of an \<^verbatim>\<open>unsigned\<close>; \<^verbatim>\<open>(int) d\<close>, which
  truncates towards zero and is undefined when the truncated value is no \<^verbatim>\<open>int\<close>; the result
  of \<^verbatim>\<open>int\<close> arithmetic, undefined on overflow; a decimal literal with the digits \<open>n\<close>,
  the last \<open>k\<close> of them after the point.
\<close>

definition i2d :: "int \<Rightarrow> double" where
  "i2d i = round_double (of_int i)"

definition u2d :: "32 word \<Rightarrow> double" where
  "u2d w = round_double (of_nat (unat w))"

definition int_result :: "int \<Rightarrow> error + int" where
  "int_result r = (if - (2 ^ 31) \<le> r \<and> r \<le> 2 ^ 31 - 1 then Inr r else Inl SignedOverflow)"

definition d2i :: "double \<Rightarrow> error + int" where
  "d2i d =
     (case d of
        Fin v \<Rightarrow>
          (let t = (if 0 \<le> v then \<lfloor>v\<rfloor> else \<lceil>v\<rceil>)
           in if - (2 ^ 31) \<le> t \<and> t \<le> 2 ^ 31 - 1 then Inr t else Inl BadIntConversion)
      | NegZero \<Rightarrow> Inr 0
      | PInf \<Rightarrow> Inl BadIntConversion
      | NInf \<Rightarrow> Inl BadIntConversion
      | NaN \<Rightarrow> Inl BadIntConversion)"

definition dlit :: "int \<Rightarrow> nat \<Rightarrow> double" where
  "dlit n k = round_double (of_int n / 10 ^ k)"

text \<open>
  Modelled from the spec: the constants of \<^verbatim>\<open><cfloat>\<close> and \<^verbatim>\<open><cmath>\<close> for binary64, which are
  not in the repository (the spec's glossary gives the mantissa width 53).
\<close>

definition DBL_MANT_DIG :: int where "DBL_MANT_DIG = 53"
definition DBL_MAX_EXP :: int where "DBL_MAX_EXP = 1024"
definition DBL_MIN_EXP :: int where "DBL_MIN_EXP = - 1021"
definition HUGE_VAL :: double where "HUGE_VAL = PInf"

section \<open>\<^verbatim>\<open>loki::round\<close>\<close>

definition MINUS_ZERO :: double where "MINUS_ZERO = NegZero"

text \<open>\<^verbatim>\<open>TWO_MANT_DIG\<close>, the product of five powers of two \<^verbatim>\<open>(double) (1U << ...)\<close>.\<close>

definition TWO_MANT_DIG :: double where
  "TWO_MANT_DIG =
     fmul (fmul (fmul (fmul
       (u2d (push_bit (nat ((DBL_MANT_DIG - 1) div 5)) 1))
       (u2d (push_bit (nat ((DBL_MANT_DIG - 1 + 1) div 5)) 1)))
       (u2d (push_bit (nat ((DBL_MANT_DIG - 1 + 2) div 5)) 1)))
       (u2d (push_bit (nat ((DBL_MANT_DIG - 1 + 3) div 5)) 1)))
       (u2d (push_bit (nat ((DBL_MANT_DIG - 1 + 4) div 5)) 1))"

text \<open>
  The body of \<^verbatim>\<open>loki::round\<close>. \<open>z1\<close>, \<open>z2\<close>, \<open>z3\<close> are the successive values of the variable
  \<^verbatim>\<open>z\<close>, \<open>y1\<close> the value \<^verbatim>\<open>y\<close> gets in \<^verbatim>\<open>y = z += 0.5\<close>.
\<close>

definition loki_round :: "double \<Rightarrow> double" where
  "loki_round x =
     (let y = x; z = y in
      if fgt z (Fin 0) then
        (if flt z (Fin (1 / 2)) then Fin 0
         else if flt z TWO_MANT_DIG then
           (let z1 = fadd z (Fin (1 / 2)); y1 = z1;
                z2 = fadd z1 TWO_MANT_DIG;
                z3 = fsub z2 TWO_MANT_DIG
            in if fgt z3 y1 then fsub z3 (Fin 1) else z3)
         else z)
      else if flt z (Fin 0) then
        (if fgt z (fneg (Fin (1 / 2))) then MINUS_ZERO
         else if fgt z (fneg TWO_MANT_DIG) then
           (let z1 = fsub z (Fin (1 / 2)); y1 = z1;
                z2 = fsub z1 TWO_MANT_DIG;
                z3 = fadd z2 TWO_MANT_DIG
            in if flt z3 y1 then fadd z3 (Fin 1) else z3)
         else z)
      else z)"

section \<open>\<^verbatim>\<open>loki::exp2\<close>\<close>

definition LOG2_BY_256 :: double where
  "LOG2_BY_256 = dlit 270760617406228636491106297444600221904 41"

definition TANH_COEFF_1 :: double where
  "TANH_COEFF_1 = dlit 10 1"

definition TANH_COEFF_3 :: double where
  "TANH_COEFF_3 = fneg (dlit 333333333333333333333333333333333333334 39)"

definition TANH_COEFF_5 :: double where
  "TANH_COEFF_5 = dlit 133333333333333333333333333333333333334 39"

text \<open>
  \<^verbatim>\<open>exp_table\<close>: the 257 literals of the source, each as its digits and the number of them
  after the decimal point; the element read is the binary64 value of the literal.
\<close>

definition exp_table_literals :: "(int \<times> nat) list" where
  "exp_table_literals =
     [(707106781186547524400844362104849039284, 39),
      (709023942160207598920563322257676190836, 39),
      (710946301084582779904674297352120049962, 39), (71287387205274715340350157671438300618, 38),
      (714806669195985005617532889137569953044, 39), (71674470668389442125974978427737336719, 38),
      (71868799872449116280161304224785251353, 38), (720636559564312831364255957304947586072, 39),
      (72259040348852331001850312073583545284, 38), (724549544821017490259402705487111270714, 39),
      (726513997924526282423036245842287293786, 39),
      (728483777200721910815451524818606761737, 39),
      (730458897090323494325651445155310766577, 39),
      (732439372073202913296664682112279175616, 39),
      (734425216668490963430822513132890712652, 39),
      (736416445434683797507470506133110286942, 39),
      (738413072969749655693453740187024961962, 39),
      (740415113911235885228829945155951253966, 39),
      (742422582936376250272386395864403155277, 39),
      (744435494762198532693663597314273242753, 39),
      (746453864145632424600321765743336770838, 39),
      (748477705883617713391824861712720862423, 39),
      (750507034813212760132561481529764324813, 39),
      (752541865811703272039672277899716132493, 39), (75458221379671136988300977551659676571, 38),
      (756628093726304951096818488157633113612, 39), (75867952059910734940489114658718937343, 38),
      (760736509454407291763130627098242426467, 39),
      (762799075372269153425626844758470477304, 39), (76486723347364351194254345936342587308, 38),
      (766940998920478000900300751753859329456, 39),
      (769020386915828464216738479594307884331, 39),
      (771105412703970411806145931045367420652, 39),
      (773196091570510777431255778146135325272, 39), (77529243884249997956151370535341912283, 38),
      (777394469888544286059157168801667390437, 39),
      (779502200118918483516864044737428940745, 39),
      (781615644985678852072965367573877941354, 39),
      (783734819982776446532455855478222575498, 39), (78585974064617068462428149076570281356, 38),
      (787990422553943243227635080090952504452, 39),
      (790126881326412263402248482007960521995, 39), (79226913262624686505993407346567890838, 38),
      (794417192158581972116898048814333564685, 39),
      (796571075671133448968624321559534367934, 39),
      (798730798954313549131410147104316569576, 39),
      (800896377841346676896923120795476813684, 39),
      (803067828208385462848443946517563571584, 39),
      (805245165974627154089760333678700291728, 39),
      (807428407102430320039984581575729114268, 39),
      (809617567597431874649880866726368203972, 39), (81181266350866441589760797777344082227, 38),
      (814013710928673883424109261007007338614, 39),
      (816220725993637535170713864466769240053, 39),
      (818433724883482243883852017078007231025, 39), (82065272382200311435413206848451310067, 38),
      (822877739076982422259378362362911222833, 39),
      (825108786960308875483586738272485101678, 39),
      (827345883828097198786118571797909120834, 39),
      (829589046080808042697824787210781231927, 39),
      (831838290163368217523168228488195222638, 39),
      (834093632565291253329796170708536192903, 39),
      (836355089820798286809404612069230711295, 39), (83862267850893927589613232455870870518, 38),
      (84089641525371454303112547623321489504, 38), (84317631672419664796432298771385230143, 38),
      (84546239963465259098692866759361830709, 38), (84775468074466634749045860363936420312, 38),
      (850053176859261734750681286748751167545, 39),
      (852357904829025611837203530384718316326, 39),
      (854668881550231413551897437515331498025, 39),
      (856986123964963019301812477839166009452, 39),
      (859309649061238957814672188228156252257, 39),
      (861639473873136948607517116872358729753, 39),
      (863975615480918781121524414614366207052, 39),
      (866318091011155532438509953514163469652, 39),
      (868666917636853124497101040936083380124, 39),
      (871022112577578221729056715595464682243, 39),
      (873383693099584470038708278290226842228, 39),
      (875751676515939078050995142767930296012, 39),
      (878126080186649741556080309687656610647, 39),
      (880506921518791912081045787323636256171, 39),
      (882894217966636410521691124969260937028, 39),
      (885287987031777386769987907431242017412, 39), (88768824626326062627527960009966160388, 38),
      (89009501325771220447985955243623523504, 38), (892508305659467490072110281986409916153, 39),
      (8949281411607004980029443898876582985, 37), (897354537501553593213851621063890907178, 39),
      (899787512470267546027427696662514569756, 39),
      (902227083903311940153838631655504844215, 39),
      (904673269685515934269259325789226871994, 39),
      (907126087750199378124917300181170171233, 39),
      (909585556079304284147971563828178746372, 39), (91205169270352665549806275316460097744, 38),
      (914524515702448671545983912696158354092, 39), (91700404320467123174354159479414442804, 38),
      (919490293387946858856304371174663918816, 39),
      (921983284479312962533570386670938449637, 39), (92448303475522546419252726694739603678, 38),
      (92698956254169278419622653516884831976, 38), (929502886214410192307650717745572682403, 39),
      (932023024198894522404814545597236289343, 39),
      (934549994970619252444512104439799143264, 39), (93708381705514995066499947497722326722, 38),
      (93962450902828008902058735120448448827, 38), (942172089516167224843810351983745154882, 39),
      (944726577195469551733539267378681531548, 39),
      (947287990793482820670109326713462307376, 39),
      (949856349088277632361251759806996099924, 39),
      (952431670908837101825337466217860725517, 39),
      (955013975135194896221170529572799135168, 39),
      (957603280698573646936305635147915443924, 39),
      (960199606581523736948607188887070611744, 39),
      (962802971818062464478519115091191368377, 39),
      (965413395493813583952272948264534783197, 39),
      (968030896746147225299027952283345762418, 39),
      (970655494764320192607710617437589705184, 39),
      (973287208789616643172102023321302921373, 39), (97592605811548914795551023340047499377, 38),
      (978572062087700134509161125813435745597, 39),
      (981225240104463713381244885057070325016, 39),
      (983885611616587889056366801238014683926, 39), (98655319612761715646797006813220671315, 38),
      (989228013193975484129124959065583667775, 39), (99191008242510968492991311132615581644, 38),
      (994599423483633175652477686222166314457, 39),
      (997296056085470126257659913847922601123, 39), (10, 1),
      (100271127505020248543074558845036204047, 38), (10054299011128028213513839559347998147, 37),
      (1008155898118417515783094890817201039276, 39),
      (101088928605170046002040979056186052439, 38),
      (1013630084951489438840258929063939929597, 39),
      (101637831491095303794049311378629406276, 38), (10191339960777379496848780958207928794, 37),
      (102189714865411667823448013478329943978, 38),
      (102466779289713564514828907627081492763, 38), (10274459491187636965388611939222137815, 37),
      (1030231637686041012871707902453904567093, 39),
      (1033024879021228422500108283970460918086, 39),
      (1035825693601957120029983209018081371844, 39),
      (103863410196137879061243669795463973258, 38),
      (104145012468831614126454607901189312648, 38),
      (1044273782427413840321966478739929008784, 39),
      (104710509587928986612990725022711224056, 38),
      (104994408580068726608203812651590790906, 38),
      (105279077300462632711989120298074630319, 38),
      (105564517836055715880834132515293865216, 38),
      (1058507322794512690105772109683716645074, 39),
      (1061377227289262080950567678003883726294, 39),
      (106425491288446454978861125700158022068, 38),
      (106714040067682361816952112099280916261, 38), (10700337118202417735424119367576235685, 37),
      (1072934867525975551385035450873827585343, 39),
      (1075843889062791037803228648476057074063, 39),
      (107876079775711979374068003743848295849, 38),
      (1081685614993215201942115594422531125643, 39),
      (108461836221330923781610517190661434161, 38),
      (1087559060917769665346797830944039707867, 39),
      (109050773266525765920701065576070797899, 38),
      (109346439907288585422822014625044716208, 38),
      (1096429081816376823386138295859248481766, 39),
      (109940180263022198546369696823882990404, 38),
      (110238258330784094355641420942564685751, 38),
      (110537144570174125558827469625695031104, 38),
      (1108368411723678638009423649426619850137, 39),
      (1111373503344817603850149254228916637444, 39),
      (11143867425958925363088129569196030678, 37), (111740815156736919905457996308578026665, 38),
      (112043775240960668442900387986631301277, 38),
      (1123475567333019800733729739775321431954, 39),
      (112652161860824189979479864378703477763, 38),
      (1129575928566288145997264988840249825907, 39),
      (113263851959871922798707372367762308438, 38),
      (113570941415780551424039033067611701343, 38),
      (113878863475669165370383028384151125472, 38),
      (114187620396956162271229760828788093894, 38),
      (114497214443180421939441388822291589579, 38),
      (114807647884017900677879966269734268003, 38),
      (115118922995298270581775963520198253612, 38),
      (1154310420590216039548221528724806960684, 39),
      (1157440073633751029613085766293796821106, 39),
      (116057821202749874636945947257609098625, 38),
      (116372485877757751381357359909218531234, 38),
      (1166880036952481570555516298414089287834, 39), (1170043769683250188080259035792738573, 36),
      (117321608016363724753480435451324538889, 38),
      (1176396991650281276284645728483848641054, 39),
      (117958652746287594548610056676944051898, 38),
      (1182784710984341029924457204693850757966, 39),
      (118599156566099383137126564953421556374, 38),
      (118920711500272106671749997056047591529, 38),
      (119243138258315122214272755814543101148, 38),
      (1195664392039827374583837049865451975705, 39),
      (119890616707438048177030255797630020695, 38),
      (1202156731452703142096396957497765876003, 39),
      (1205416109005123825604211432558411335666, 39),
      (1208684323626581577354792255889216998484, 39),
      (121196139927680119446816891773249304545, 38),
      (1215247359980468878116520251338798457624, 39),
      (1218542229827408361758207148117394510724, 39),
      (1221846032972757516903891841911570785836, 39),
      (1225158793637145437709464594384845353707, 39),
      (122848053610687000569400895779278184036, 38), (12318112847340759358845566532127948166, 37),
      (1235151063936933305692912507415415760294, 39),
      (1238499898199816567833368865859612431545, 39),
      (124185781207348404859367746872659560551, 38),
      (124522483017525793277520496748615267417, 38),
      (124860097718920473662176609730249554519, 38),
      (125198627786631627006020603178920359732, 38),
      (1255380757024691089579390657442301194595, 39),
      (125878443954971644307786044181516261876, 38),
      (126219735039425070801401025851841645967, 38),
      (1265619514578806324196273999873453036296, 39),
      (126905095719173322255441908103233800472, 38),
      (127249170338940275123669204418460217677, 38),
      (127594177839639210038120243475928938891, 38),
      (127940120750566922691358797002785254596, 38),
      (128287001607877828072666978102151405111, 38),
      (1286348229546025533601482208069738348355, 39),
      (128983587340666581223274729549155218968, 38),
      (1293332973229089436725559789048704304684, 39),
      (1296839554651009665933754117792451159835, 39),
      (130035564337965065101414056707091779129, 38),
      (130388126519193589857452364895199736833, 38),
      (130741644593467724479715157747196172848, 38),
      (1310961211524764341922991786330755849366, 39),
      (1314515587949354658485983613383997794965, 39),
      (1318079601266063994690185647066116617664, 39),
      (132165327760315751432651181233060922616, 38),
      (132523664315974129462953709549872167411, 38),
      (132882972420595439547865089632866510792, 38),
      (133243254708316144935164337949073577407, 38),
      (133604513820414577344262790437186975929, 38),
      (133966752405330300536003066972435257602, 38),
      (134329973118683526382421714618163087542, 38),
      (1346941786232945835788173713229537282075, 39),
      (135059371589203439140852219606013396004, 38),
      (135425554693689272829801474014070280434, 38),
      (1357927306212901046494536695671766697446, 39),
      (136160902063822475558553593883194147464, 38),
      (136530071720401181543069836033754285543, 38),
      (136900242297459061192960113298219283217, 38),
      (137271416508766836928499785714471721579, 38),
      (137643597075453010021632280551868696026, 38),
      (1380167867260238095581945274358283464697, 39), (1383909881963831954872659527265192818, 36),
      (1387662042298529159042861017950775988896, 39),
      (139142437577192618714983552956624344668, 38),
      (1395196909966200178275574599249220994716, 39),
      (1398979672538311140209528136715194969206, 39),
      (140277269122020470637471352433337881711, 38),
      (140657599381901544248361973255451684411, 38),
      (1410389608217270704414375128268675481145, 39),
      (141421356237309504880168872420969807857, 38)]"

definition exp_table :: "int \<Rightarrow> error + double" where
  "exp_table i =
     (if 0 \<le> i \<and> i < 257 then
        Inr (dlit (fst (exp_table_literals ! nat i)) (snd (exp_table_literals ! nat i)))
      else Inl OutOfBounds)"

text \<open>The local variables of the block of \<^verbatim>\<open>loki::exp2\<close>, each as a function of \<open>x\<close>.\<close>

definition exp2_nm :: "double \<Rightarrow> double" where
  "exp2_nm x = loki_round (fmul x (Fin 256))"

definition exp2_z :: "double \<Rightarrow> double" where
  "exp2_z x = fmul (fsub (fmul x (Fin 256)) (exp2_nm x)) (fmul LOG2_BY_256 (Fin (1 / 2)))"

definition exp2_tanh_z :: "double \<Rightarrow> double" where
  "exp2_tanh_z x =
     (let z = exp2_z x; z2 = fmul z z
      in fmul (fadd (fmul (fadd (fmul TANH_COEFF_5 z2) TANH_COEFF_3) z2) TANH_COEFF_1) z)"

definition exp2_exp_y :: "double \<Rightarrow> double" where
  "exp2_exp_y x = fdiv (fadd (Fin 1) (exp2_tanh_z x)) (fsub (Fin 1) (exp2_tanh_z x))"

definition exp2_n :: "double \<Rightarrow> error + int" where
  "exp2_n x = d2i (loki_round (fmul (exp2_nm x) (fdiv (Fin 1) (Fin 256))))"

definition exp2_m :: "double \<Rightarrow> error + int" where
  "exp2_m x =
     (case exp2_n x of
        Inl e \<Rightarrow> Inl e
      | Inr n \<Rightarrow>
          (case d2i (exp2_nm x) of
             Inl e \<Rightarrow> Inl e
           | Inr a \<Rightarrow>
               (case int_result (256 * n) of
                  Inl e \<Rightarrow> Inl e
                | Inr b \<Rightarrow> int_result (a - b))))"

text \<open>\<^verbatim>\<open>for (int i = 0; i < n; i++) ret *= 2;\<close> from the value \<open>i\<close> of the counter.\<close>

function scale_loop :: "int \<Rightarrow> int \<Rightarrow> double \<Rightarrow> double" where
  "scale_loop i n ret = (if i < n then scale_loop (i + 1) n (fmul ret (Fin 2)) else ret)"
  by pat_completeness auto
termination
  by (relation "measure (\<lambda>(i, n, ret). nat (n - i))") auto

declare scale_loop.simps [simp del]

definition loki_exp2 :: "double \<Rightarrow> error + double" where
  "loki_exp2 x =
     (if fgt x (i2d DBL_MAX_EXP) then Inr HUGE_VAL
      else if flt x (i2d (DBL_MIN_EXP - 1 - DBL_MANT_DIG)) then Inr (Fin 0)
      else
        (case exp2_n x of
           Inl e \<Rightarrow> Inl e
         | Inr n \<Rightarrow>
             (case exp2_m x of
                Inl e \<Rightarrow> Inl e
              | Inr m \<Rightarrow>
                  (case int_result (128 + m) of
                     Inl e \<Rightarrow> Inl e
                   | Inr i \<Rightarrow>
                       (case exp_table i of
                          Inl e \<Rightarrow> Inl e
                        | Inr t \<Rightarrow> Inr (scale_loop 0 n (fmul t (exp2_exp_y x))))))))"

text \<open>A double that holds the integer \<open>K\<close>: \<open>K\<close> itself, or the negative zero for \<open>K = 0\<close>.\<close>

definition int_valued :: "double \<Rightarrow> int \<Rightarrow> bool" where
  "int_valued d K = (d = Fin (of_int K) \<or> (d = NegZero \<and> K = 0))"

section \<open>Properties of the encoder\<close>

subsection \<open>The loop\<close>

lemma ind_less_32: "unat ((w :: 32 word) AND 0x1F) < 32"
proof -
  have "unat (w AND 0x1F) \<le> unat (0x1F :: 32 word)"
    by (rule word_and_le1 [THEN word_le_nat_alt [THEN iffD1]])
  then show ?thesis by simp
qed

lemma alpha_length: "length zbase32_alpha = 32"
  by (simp add: zbase32_alpha_def)

lemma alpha_nth_mem: "zbase32_alpha ! unat ((w :: 32 word) AND 0x1F) \<in> set zbase32_alpha"
  by (rule nth_mem) (simp add: alpha_length ind_less_32)

lemma nul_not_symbol: "CHR 0x00 \<notin> set zbase32_alpha"
  by (simp add: zbase32_alpha_def)

lemma refill_cases:
  assumes "0 \<le> bits" "bits \<le> 8" "bits > 0 \<or> pos < length val"
  shows "\<exists>tmp1 pos1 bits1. refill val tmp pos bits = Inr (tmp1, pos1, bits1) \<and> 5 \<le> bits1 \<and> bits1 \<le> 12
           \<and> symbols_left val pos bits = Suc (symbols_left val pos1 (bits1 - 5))"
  using assms unfolding refill_def symbols_left_def
  by (auto simp: nat_add_distrib nat_diff_distrib)

text \<open>One turn of the loop: a symbol of the alphabet is stored at index \<open>ret\<close>.\<close>

lemma loop_unfold:
  assumes "0 \<le> bits" "bits \<le> 8" "bits > 0 \<or> pos < length val" "ret < length stack"
  shows "\<exists>tmp1 pos1 bits1 c. base32z_loop val ret pos bits tmp stack =
            base32z_loop val (Suc ret) pos1 bits1 tmp1 (stack[ret := c])
          \<and> c \<in> set zbase32_alpha \<and> 0 \<le> bits1 \<and> bits1 \<le> 8
          \<and> symbols_left val pos bits = Suc (symbols_left val pos1 bits1)"
proof -
  from refill_cases [OF assms(1-3), of tmp]
  obtain tmp1 pos1 bits1 where r: "refill val tmp pos bits = Inr (tmp1, pos1, bits1)"
    and b: "5 \<le> bits1" "bits1 \<le> 12"
    and s: "symbols_left val pos bits = Suc (symbols_left val pos1 (bits1 - 5))"
    by blast
  have "base32z_loop val ret pos bits tmp stack =
          base32z_loop val (Suc ret) pos1 (bits1 - 5) tmp1
            (stack[ret := zbase32_alpha ! unat (signed_drop_bit (nat (bits1 - 5)) tmp1 AND 0x1F)])"
    using assms(3,4) r b by (subst base32z_loop.simps) (simp add: Let_def)
  with b s alpha_nth_mem show ?thesis
    by (intro exI [of _ tmp1] exI [of _ pos1] exI [of _ "bits1 - 5"] exI) auto
qed

lemma loop_stop:
  assumes "\<not> (ret < length stack \<and> (bits > 0 \<or> pos < length val))"
  shows "base32z_loop val ret pos bits tmp stack = Inr (Some stack)"
  using assms by (subst base32z_loop.simps) auto

text \<open>
  The loop never returns \<^verbatim>\<open>nullptr\<close> and never fails: it returns the buffer, changed only
  at the indices from \<open>ret\<close> up to (not including) the smaller of the buffer's size and
  \<open>ret + symbols_left val pos bits\<close>, each of them now a symbol of the alphabet.
\<close>

lemma loop_result:
  assumes "0 \<le> bits" "bits \<le> 8" "ret \<le> length stack"
  shows "\<exists>out. base32z_loop val ret pos bits tmp stack = Inr (Some out)
           \<and> length out = length stack
           \<and> (\<forall>i < length stack. i < ret \<or> min (length stack) (ret + symbols_left val pos bits) \<le> i \<longrightarrow> out ! i = stack ! i)
           \<and> (\<forall>i. ret \<le> i \<and> i < min (length stack) (ret + symbols_left val pos bits) \<longrightarrow> out ! i \<in> set zbase32_alpha)"
  using assms
proof (induction "length stack - ret" arbitrary: ret pos bits tmp stack)
  case 0
  then have "base32z_loop val ret pos bits tmp stack = Inr (Some stack)"
    by (intro loop_stop) simp
  with 0 show ?case by auto
next
  case (Suc n)
  show ?case
  proof (cases "bits > 0 \<or> pos < length val")
    case False
    then have stop: "base32z_loop val ret pos bits tmp stack = Inr (Some stack)"
      by (intro loop_stop) simp
    from False Suc.prems have "symbols_left val pos bits = 0"
      by (simp add: symbols_left_def)
    with stop show ?thesis by auto
  next
    case True
    from Suc.hyps(2) have lt: "ret < length stack" by simp
    from loop_unfold [OF Suc.prems(1,2) True lt, of tmp]
    obtain tmp1 pos1 bits1 c where
      u: "base32z_loop val ret pos bits tmp stack =
            base32z_loop val (Suc ret) pos1 bits1 tmp1 (stack[ret := c])"
      and c: "c \<in> set zbase32_alpha" and b: "0 \<le> bits1" "bits1 \<le> 8"
      and s: "symbols_left val pos bits = Suc (symbols_left val pos1 bits1)"
      by blast
    have n: "n = length (stack[ret := c]) - Suc ret" using Suc.hyps(2) by simp
    have le: "Suc ret \<le> length (stack[ret := c])" using lt by simp
    from Suc.hyps(1) [OF n b le, of pos1 tmp1]
    obtain out where
      o: "base32z_loop val (Suc ret) pos1 bits1 tmp1 (stack[ret := c]) = Inr (Some out)"
      and l: "length out = length stack"
      and keep: "\<forall>i < length stack. i < Suc ret \<or> min (length stack) (Suc ret + symbols_left val pos1 bits1) \<le> i
                   \<longrightarrow> out ! i = stack[ret := c] ! i"
      and new: "\<forall>i. Suc ret \<le> i \<and> i < min (length stack) (Suc ret + symbols_left val pos1 bits1)
                   \<longrightarrow> out ! i \<in> set zbase32_alpha"
      by auto
    have k: "Suc ret + symbols_left val pos1 bits1 = ret + symbols_left val pos bits"
      using s by simp
    have r: "out ! ret = c" using keep lt by simp
    have 1: "\<forall>i < length stack. i < ret \<or> min (length stack) (ret + symbols_left val pos bits) \<le> i
                \<longrightarrow> out ! i = stack ! i"
    proof (intro allI impI)
      fix i assume i: "i < length stack" "i < ret \<or> min (length stack) (ret + symbols_left val pos bits) \<le> i"
      then have "i \<noteq> ret" using s lt by auto
      moreover have "out ! i = stack[ret := c] ! i" using keep i k by auto
      ultimately show "out ! i = stack ! i" by simp
    qed
    have 2: "\<forall>i. ret \<le> i \<and> i < min (length stack) (ret + symbols_left val pos bits)
               \<longrightarrow> out ! i \<in> set zbase32_alpha"
    proof (intro allI impI)
      fix i assume i: "ret \<le> i \<and> i < min (length stack) (ret + symbols_left val pos bits)"
      show "out ! i \<in> set zbase32_alpha"
      proof (cases "i = ret")
        case True
        with r c show ?thesis by simp
      next
        case False
        with i k new show ?thesis by auto
      qed
    qed
    from u o l 1 2 show ?thesis by simp
  qed
qed

subsection \<open>\<^verbatim>\<open>base32z_encode\<close> and \<^verbatim>\<open>hex64_to_base32z\<close>\<close>

lemma transform_append: "transform src bin f = bin @ map f src"
  by (induction src arbitrary: bin) simp_all

text \<open>
  On a non-empty vector the encoder stores \<open>min (sizeof stack) \<lceil>8 N / 5\<rceil>\<close> symbols at the
  front of the buffer, leaves the rest of it as it was and returns the buffer.
\<close>

lemma encode_result:
  assumes "val \<noteq> []"
  shows "\<exists>out. base32z_encode val stack = Inr (Some out)
           \<and> length out = length stack
           \<and> (\<forall>i < length stack. min (length stack) ((8 * length val + 4) div 5) \<le> i \<longrightarrow> out ! i = stack ! i)
           \<and> (\<forall>i < min (length stack) ((8 * length val + 4) div 5). out ! i \<in> set zbase32_alpha)"
proof -
  from assms have s: "symbols_left val 1 8 = (8 * length val + 4) div 5"
    by (cases val) (simp_all add: symbols_left_def)
  from loop_result [of 8 0 stack val 1 "ucast (val ! 0)"] assms s show ?thesis
    by (simp add: base32z_encode_def)
qed

text \<open>The \<^verbatim>\<open>return nullptr\<close> of the encoder is never taken, whatever the input.\<close>

lemma encode_never_null: "base32z_encode val stack \<noteq> Inr None"
proof (cases "val = []")
  case True
  then show ?thesis by (simp add: base32z_encode_def)
next
  case False
  from encode_result [OF this, of stack] show ?thesis by auto
qed

lemma c_string_prefix:
  assumes "length out = n" "k < n" "\<forall>i < k. out ! i \<noteq> CHR 0x00" "\<forall>i < n. k \<le> i \<longrightarrow> out ! i = CHR 0x00"
  shows "c_string out = Inr (take k out)"
proof -
  have z: "out ! k = CHR 0x00" using assms by simp
  then have mem: "CHR 0x00 \<in> set out" using assms(1,2) by (metis nth_mem)
  have "takeWhile (\<lambda>c. c \<noteq> CHR 0x00) out = take k out"
  proof (rule takeWhile_eq_take_P_nth)
    show "\<And>i. i < k \<Longrightarrow> i < length out \<Longrightarrow> out ! i \<noteq> CHR 0x00" using assms(3) by simp
    show "k < length out \<Longrightarrow> \<not> out ! k \<noteq> CHR 0x00" using z by simp
  qed
  with mem show ?thesis by (simp add: c_string_def)
qed

lemma c_string_full:
  assumes "\<forall>i < length out. out ! i \<noteq> CHR 0x00"
  shows "c_string out = Inl Unterminated"
proof -
  have "CHR 0x00 \<notin> set out" using assms by (auto simp: in_set_conv_nth)
  then show ?thesis by (simp add: c_string_def)
qed

text \<open>
  Inputs of 1 to 39 characters: the encoding fits with room for the terminating NUL, and the
  result has \<open>\<lceil>8 N / 5\<rceil>\<close> symbols of the alphabet, whatever the characters are.
\<close>

lemma hex64_short:
  assumes "1 \<le> length src" "length src \<le> 39"
  shows "\<exists>s. hex64_to_base32z src = Inr s \<and> length s = (8 * length src + 4) div 5
              \<and> set s \<subseteq> set zbase32_alpha"
proof -
  let ?bin = "transform src [] hex_digit"
  let ?buf = "replicate 64 (CHR 0x00)"
  let ?k = "(8 * length src + 4) div 5"
  have len: "length ?bin = length src" by (simp add: transform_append)
  with assms have ne: "?bin \<noteq> []" by auto
  have k: "?k < 64" using assms by simp
  from encode_result [OF ne, of ?buf] len k obtain out where
    e: "base32z_encode ?bin ?buf = Inr (Some out)" and l: "length out = 64"
    and rest: "\<forall>i < 64. ?k \<le> i \<longrightarrow> out ! i = CHR 0x00"
    and syms: "\<forall>i < ?k. out ! i \<in> set zbase32_alpha"
    by (auto simp: min_def)
  have nz: "\<forall>i < ?k. out ! i \<noteq> CHR 0x00" using syms nul_not_symbol by metis
  have c: "c_string out = Inr (take ?k out)"
    by (rule c_string_prefix [OF l k nz rest])
  have "set (take ?k out) \<subseteq> set zbase32_alpha"
    using syms l k by (auto simp: in_set_conv_nth)
  moreover have "hex64_to_base32z src = Inr (take ?k out)"
    using assms e c by (simp add: hex64_to_base32z_def)
  ultimately show ?thesis using l k by auto
qed

text \<open>
  Inputs of 40 to 64 characters: all 64 bytes of \<^verbatim>\<open>buf\<close> are symbols, no NUL is left in
  it, and \<^verbatim>\<open>result = dest\<close> reads past its end.
\<close>

lemma hex64_long:
  assumes "40 \<le> length src" "length src \<le> 64"
  shows "hex64_to_base32z src = Inl Unterminated"
proof -
  let ?bin = "transform src [] hex_digit"
  let ?buf = "replicate 64 (CHR 0x00)"
  have len: "length ?bin = length src" by (simp add: transform_append)
  with assms have ne: "?bin \<noteq> []" by auto
  have k: "64 \<le> (8 * length src + 4) div 5" using assms by simp
  from encode_result [OF ne, of ?buf] len k obtain out where
    e: "base32z_encode ?bin ?buf = Inr (Some out)" and l: "length out = 64"
    and syms: "\<forall>i < 64. out ! i \<in> set zbase32_alpha"
    by (auto simp: min_def)
  have "\<forall>i < length out. out ! i \<noteq> CHR 0x00" using syms l nul_not_symbol by metis
  then have "c_string out = Inl Unterminated" by (rule c_string_full)
  then show ?thesis using assms e by (simp add: hex64_to_base32z_def)
qed

text \<open>
  Had \<^verbatim>\<open>value[0]\<close> of the empty vector produced some byte \<open>t\<close>, the loop would still have
  stored two symbols: the result would not be empty.
\<close>

lemma empty_vector_two_symbols:
  "\<exists>out s. base32z_loop [] 0 1 8 t (replicate 64 (CHR 0x00)) = Inr (Some out)
      \<and> c_string out = Inr s \<and> length s = 2"
proof -
  let ?buf = "replicate 64 (CHR 0x00)"
  have s: "symbols_left [] 1 8 = 2" by (simp add: symbols_left_def)
  from loop_result [of 8 0 ?buf "[]" 1 t] s obtain out where
    e: "base32z_loop [] 0 1 8 t ?buf = Inr (Some out)" and l: "length out = 64"
    and rest: "\<forall>i < 64. 2 \<le> i \<longrightarrow> out ! i = CHR 0x00"
    and syms: "\<forall>i < 2. out ! i \<in> set zbase32_alpha"
    by (auto simp: min_def)
  have nz: "\<forall>i < 2. out ! i \<noteq> CHR 0x00" using syms nul_not_symbol by metis
  have "c_string out = Inr (take 2 out)"
    by (rule c_string_prefix [OF l _ nz rest]) simp
  with e l show ?thesis by auto
qed

lemma unat_small: "k < 256 \<Longrightarrow> unat (of_nat k :: 8 word) = k"
  by (rule of_nat_inverse [OF refl]) simp

subsection \<open>The claims about the encoder\<close>

text \<open>
  C2: when the encoded output would exceed the 64-character capacity, \<^verbatim>\<open>hex64_to_base32z\<close>
  signals a failure with an empty result instead of truncating. The code does not: on 64
  characters \<^verbatim>\<open>'0'\<close> (103 symbols would be needed) the loop stops at \<^verbatim>\<open>ret == 64\<close> through its
  own condition, the \<^verbatim>\<open>return nullptr\<close> inside it is never reached, the encoder returns the
  buffer holding the first 64 symbols, and the result is not the empty string.
\<close>

theorem capacity_exhaustion_returns_truncated_buffer:
  "base32z_encode (transform (replicate 64 (CHR ''0'')) [] hex_digit) (replicate 64 (CHR 0x00))
     = Inr (Some (replicate 64 (CHR ''y'')))
   \<and> hex64_to_base32z (replicate 64 (CHR ''0'')) \<noteq> Inr []"
  by code_simp

text \<open>
  C3: \<^verbatim>\<open>hex64_to_base32z("")\<close> returns the empty string. The code reads \<^verbatim>\<open>value[0]\<close> of the
  empty vector before its loop looks at the length: the call has no defined result.
\<close>

theorem empty_input_reads_out_of_bounds: "hex64_to_base32z [] = Inl OutOfBounds"
  by (simp add: hex64_to_base32z_def base32z_encode_def)

text \<open>
  C5: for an accepted input whose encoding completes, the result has \<open>\<lceil>8 N / 5\<rceil>\<close>
  characters, \<open>N\<close> the number of input characters. It does for \<open>1 \<le> N \<le> 39\<close>
  (\<open>hex64_short\<close>). For \<open>N = 40\<close> the encoding completes with exactly 64 symbols, which fill
  the buffer and leave no terminating NUL: the result is read past the end of the buffer.
\<close>

theorem forty_characters_fill_the_buffer:
  "base32z_encode (transform (replicate 40 (CHR ''0'')) [] hex_digit) (replicate 64 (CHR 0x00))
     = Inr (Some (replicate ((8 * 40 + 4) div 5) (CHR ''y'')))
   \<and> hex64_to_base32z (replicate 40 (CHR ''0'')) = Inl Unterminated"
  by code_simp

text \<open>
  C7: the decode step of \<^verbatim>\<open>hex64_to_base32z\<close> maps every character on its own:
  \<^verbatim>\<open>'0'\<close>..\<^verbatim>\<open>'9'\<close> (codes 48..57) to 0..9, \<^verbatim>\<open>'A'\<close>..\<^verbatim>\<open>'F'\<close> (65..70) to 10..15,
  \<^verbatim>\<open>'a'\<close>..\<^verbatim>\<open>'f'\<close> (97..102) to 10..15 and every other character to 0; it has no error
  result, and the decoded vector is the input mapped character by character.
\<close>

theorem hex_digit_decodes_each_character:
  "((48::nat) \<le> of_char ch \<and> of_char ch \<le> (57::nat) \<longrightarrow> unat (hex_digit ch) = of_char ch - 48)
   \<and> ((65::nat) \<le> of_char ch \<and> of_char ch \<le> (70::nat) \<longrightarrow> unat (hex_digit ch) = of_char ch - 65 + 10)
   \<and> ((97::nat) \<le> of_char ch \<and> of_char ch \<le> (102::nat) \<longrightarrow> unat (hex_digit ch) = of_char ch - 97 + 10)
   \<and> (\<not> ((48::nat) \<le> of_char ch \<and> of_char ch \<le> (57::nat))
      \<and> \<not> ((65::nat) \<le> of_char ch \<and> of_char ch \<le> (70::nat))
      \<and> \<not> ((97::nat) \<le> of_char ch \<and> of_char ch \<le> (102::nat)) \<longrightarrow> hex_digit ch = 0)
   \<and> transform src [] hex_digit = map hex_digit src"
proof -
  have "transform src [] hex_digit = map hex_digit src"
    by (simp add: transform_append)
  moreover have "(48::nat) \<le> of_char ch \<and> of_char ch \<le> (57::nat) \<longrightarrow> unat (hex_digit ch) = of_char ch - 48"
    unfolding hex_digit_def by (auto simp del: of_nat_diff intro!: unat_small)
  moreover have "(65::nat) \<le> of_char ch \<and> of_char ch \<le> (70::nat) \<longrightarrow> unat (hex_digit ch) = of_char ch - 65 + 10"
  proof
    assume a: "(65::nat) \<le> of_char ch \<and> of_char ch \<le> (70::nat)"
    then have "unat (hex_digit ch) = of_char ch - 55"
      unfolding hex_digit_def by (auto simp del: of_nat_diff intro!: unat_small)
    with a show "unat (hex_digit ch) = of_char ch - 65 + 10" by simp
  qed
  moreover have "(97::nat) \<le> of_char ch \<and> of_char ch \<le> (102::nat) \<longrightarrow> unat (hex_digit ch) = of_char ch - 97 + 10"
  proof
    assume a: "(97::nat) \<le> of_char ch \<and> of_char ch \<le> (102::nat)"
    then have "unat (hex_digit ch) = of_char ch - 87"
      unfolding hex_digit_def by (auto simp del: of_nat_diff intro!: unat_small)
    with a show "unat (hex_digit ch) = of_char ch - 97 + 10" by simp
  qed
  moreover have "\<not> ((48::nat) \<le> of_char ch \<and> of_char ch \<le> (57::nat))
      \<and> \<not> ((65::nat) \<le> of_char ch \<and> of_char ch \<le> (70::nat))
      \<and> \<not> ((97::nat) \<le> of_char ch \<and> of_char ch \<le> (102::nat)) \<longrightarrow> hex_digit ch = 0"
    unfolding hex_digit_def by auto
  ultimately show ?thesis by blast
qed

theorem hex_digit_decodes_each_character_witness:
  "unat (hex_digit (CHR ''7'')) = 7 \<and> unat (hex_digit (CHR ''C'')) = 12
   \<and> unat (hex_digit (CHR ''e'')) = 14 \<and> hex_digit (CHR ''g'') = 0
   \<and> transform ''7Ceg'' [] hex_digit = [7, 12, 14, 0]"
proof -
  have "unat (hex_digit (CHR ''7'')) = 7"
    using hex_digit_decodes_each_character [of "CHR ''7''" "''7Ceg''"] by simp
  moreover have "unat (hex_digit (CHR ''C'')) = 12"
    using hex_digit_decodes_each_character [of "CHR ''C''" "''7Ceg''"] by simp
  moreover have "unat (hex_digit (CHR ''e'')) = 14"
    using hex_digit_decodes_each_character [of "CHR ''e''" "''7Ceg''"] by simp
  moreover have "hex_digit (CHR ''g'') = 0"
    using hex_digit_decodes_each_character [of "CHR ''g''" "''7Ceg''"] by simp
  moreover have "transform ''7Ceg'' [] hex_digit = map hex_digit ''7Ceg''"
    using hex_digit_decodes_each_character [of "CHR ''g''" "''7Ceg''"] by blast
  moreover have "map hex_digit ''7Ceg'' = [7, 12, 14, 0]"
    by (simp add: hex_digit_def)
  ultimately show ?thesis by simp
qed

text \<open>
  C10: the encoder writes only to the indices 0..63 of the 64-byte buffer, so
  \<^verbatim>\<open>hex64_to_base32z\<close> always returns a string of at most 64 characters. The writes do stay
  inside the buffer (\<open>loop_result\<close>, \<open>encode_result\<close>), but a full buffer is no C string: on
  64 characters \<^verbatim>\<open>'0'\<close> all 64 bytes are symbols and the string is read from a buffer without
  a terminating NUL, past index 63.
\<close>

theorem full_buffer_is_read_past_its_end:
  "hex64_to_base32z (replicate 64 (CHR ''0'')) = Inl Unterminated"
  by (rule hex64_long) simp_all

section \<open>Properties of the rounding\<close>

subsection \<open>Powers of two and \<open>ilog2\<close>\<close>

lemma p2_less_iff: "(2::rat) powi a < 2 powi b \<longleftrightarrow> a < b"
proof
  assume "(2::rat) powi a < 2 powi b"
  show "a < b"
  proof (rule ccontr)
    assume "\<not> a < b"
    then have "b \<le> a" by simp
    then have "(2::rat) powi b \<le> 2 powi a" by (rule power_int_increasing) simp
    with \<open>(2::rat) powi a < 2 powi b\<close> show False by simp
  qed
next
  assume "a < b"
  then show "(2::rat) powi a < 2 powi b" by (rule power_int_strict_increasing) simp
qed

lemma p2_le_iff: "(2::rat) powi a \<le> 2 powi b \<longleftrightarrow> a \<le> b"
  using p2_less_iff [of b a] by (auto simp: not_less [symmetric])

lemma p2_pos: "0 < (2::rat) powi a"
  by simp

lemma p2_add: "(2::rat) powi (a + b) = 2 powi a * 2 powi b"
  by (rule power_int_add) simp

lemma p2_diff: "(2::rat) powi (a - b) = 2 powi a / 2 powi b"
  by (rule power_int_diff) simp

lemma p2_nat: "0 \<le> a \<Longrightarrow> (2::rat) powi a = of_int (2 ^ nat a)"
  by (simp add: power_int_nonneg_exp)

lemma ilog2_bounds:
  assumes "0 < v"
  shows "2 powi ilog2 v \<le> v" and "v < 2 powi (ilog2 v + 1)"
proof -
  have "2 powi ilog2 v \<le> v \<and> v < 2 powi (ilog2 v + 1)"
  proof (cases "1 \<le> v")
    case True
    define n where "n = \<lfloor>v\<rfloor>"
    have n1: "1 \<le> n" using True by (simp add: n_def le_floor_iff)
    then have n0: "0 < n" by simp
    from bitlen_bounds [OF n0]
    have lo: "2 ^ nat (bitlen n - 1) \<le> n" and hi: "n < 2 ^ nat (bitlen n)" by simp_all
    have b1: "1 \<le> bitlen n" using n0 bitlen_eq_zero_iff [of n] bitlen_nonneg [of n] by linarith
    have e: "ilog2 v = bitlen n - 1" using True by (simp add: ilog2_def n_def)
    have "(2::rat) powi (bitlen n - 1) = of_int (2 ^ nat (bitlen n - 1))"
      using b1 by (intro p2_nat) simp
    also have "\<dots> \<le> of_int n" using lo by (simp only: of_int_le_iff)
    also have "\<dots> \<le> v" by (simp add: n_def)
    finally have 1: "2 powi ilog2 v \<le> v" by (simp add: e)
    have "n + 1 \<le> 2 ^ nat (bitlen n)" using hi by simp
    then have "(of_int (n + 1) :: rat) \<le> of_int (2 ^ nat (bitlen n))" by (simp only: of_int_le_iff)
    moreover have "v < of_int (n + 1)" unfolding n_def by linarith
    ultimately have "v < of_int (2 ^ nat (bitlen n))" by (rule less_le_trans [rotated])
    also have "\<dots> = 2 powi (bitlen n)" using b1 by (intro p2_nat [symmetric]) simp
    finally have 2: "v < 2 powi (ilog2 v + 1)" by (simp add: e)
    from 1 2 show ?thesis ..
  next
    case False
    define w where "w = 1 / v"
    define c where "c = \<lceil>w\<rceil>"
    define b where "b = bitlen (c - 1)"
    have w1: "1 < w" using False assms by (simp add: w_def)
    then have c2: "2 \<le> c" unfolding c_def by linarith
    then have c0: "0 < c - 1" by simp
    from bitlen_bounds [OF c0]
    have lo: "2 ^ nat (b - 1) \<le> c - 1" and hi: "c - 1 < 2 ^ nat b" by (simp_all add: b_def)
    have b1: "1 \<le> b" using c0 bitlen_eq_zero_iff [of "c - 1"] bitlen_nonneg [of "c - 1"]
      unfolding b_def by linarith
    have e: "ilog2 v = - b" using False by (simp add: ilog2_def b_def c_def w_def)
    have v: "v = 1 / w" using assms by (simp add: w_def)
    have "c \<le> 2 ^ nat b" using hi by simp
    then have "(of_int c :: rat) \<le> of_int (2 ^ nat b)" by (simp only: of_int_le_iff)
    moreover have "w \<le> of_int c" by (simp add: c_def)
    ultimately have "w \<le> of_int (2 ^ nat b)" by (rule order_trans [rotated])
    also have "\<dots> = 2 powi b" using b1 by (intro p2_nat [symmetric]) simp
    finally have "w \<le> 2 powi b" .
    then have "1 / (2 powi b) \<le> 1 / w" using w1 by (intro divide_left_mono) simp_all
    then have "2 powi (- b) \<le> 1 / w" by (simp add: power_int_minus_divide)
    then have 1: "2 powi ilog2 v \<le> v" by (simp only: e flip: v)
    have "(2::rat) powi (b - 1) = of_int (2 ^ nat (b - 1))" using b1 by (intro p2_nat) simp
    also have "\<dots> \<le> of_int (c - 1)" using lo by (simp only: of_int_le_iff)
    also have "\<dots> < w" unfolding c_def by linarith
    finally have "(2::rat) powi (b - 1) < w" .
    then have "1 / w < 1 / (2 powi (b - 1))" using w1 by (intro divide_strict_left_mono) simp_all
    moreover have "1 / ((2::rat) powi (b - 1)) = 2 powi (- b + 1)"
      using power_int_minus_divide [of "2::rat" "b - 1"] by simp
    ultimately have "1 / w < 2 powi (- b + 1)" by simp
    then have 2: "v < 2 powi (ilog2 v + 1)" by (simp only: e flip: v)
    from 1 2 show ?thesis ..
  qed
  then show "2 powi ilog2 v \<le> v" and "v < 2 powi (ilog2 v + 1)" by simp_all
qed

lemma ilog2_unique:
  assumes "2 powi e \<le> v" "v < 2 powi (e + 1)"
  shows "ilog2 v = e"
proof -
  have "0 < (2::rat) powi e" by simp
  with assms(1) have v: "0 < v" by (rule less_le_trans [rotated])
  from ilog2_bounds [OF v] assms have "(2::rat) powi ilog2 v < 2 powi (e + 1)"
    and "(2::rat) powi e < 2 powi (ilog2 v + 1)" by linarith+
  then show ?thesis by (simp add: p2_less_iff)
qed

subsection \<open>Rounding to binary64\<close>

lemma rne_of_int: "rne (of_int k) = k"
  by (simp add: rne_def)

lemma rne_error: "\<bar>of_int (rne s) - s\<bar> \<le> 1 / 2"
proof -
  define d where "d = s - of_int \<lfloor>s\<rfloor>"
  have d: "0 \<le> d" "d < 1" unfolding d_def by linarith+
  have "of_int (rne s) - s = - d \<and> d \<le> 1 / 2 \<or> of_int (rne s) - s = 1 - d \<and> 1 / 2 \<le> d"
    unfolding rne_def Let_def d_def by auto
  with d show ?thesis by (auto simp: abs_if)
qed

lemma rne_ge: "of_int a \<le> s \<Longrightarrow> a \<le> rne s"
proof -
  assume "of_int a \<le> s"
  then have "a \<le> \<lfloor>s\<rfloor>" by (simp add: le_floor_iff)
  then show ?thesis unfolding rne_def Let_def by auto
qed

lemma rne_le: "s \<le> of_int b \<Longrightarrow> rne s \<le> b"
proof -
  assume a: "s \<le> of_int b"
  show ?thesis
  proof (cases "s = of_int b")
    case True
    then show ?thesis by (simp add: rne_of_int)
  next
    case False
    with a have "s < of_int b" by simp
    then have "\<lfloor>s\<rfloor> < b" by (simp add: floor_less_iff)
    then show ?thesis unfolding rne_def Let_def by auto
  qed
qed

lemma ulp_exp_eq:
  assumes "2 powi e \<le> \<bar>v\<bar>" "\<bar>v\<bar> < 2 powi (e + 1)"
  shows "ulp_exp v = max (e - 52) (- 1074)"
  using ilog2_unique [OF assms] by (simp add: ulp_exp_def)

lemma ulp_exp_ge: "- 1074 \<le> ulp_exp v"
  by (simp add: ulp_exp_def)

lemma ulp_exp_upper:
  assumes "v \<noteq> 0" "\<bar>v\<bar> < 2 powi (e + 1)" "- 1074 \<le> e - 52"
  shows "ulp_exp v \<le> e - 52"
proof -
  from assms(1) have "0 < \<bar>v\<bar>" by simp
  from ilog2_bounds(1) [OF this] assms(2) have "(2::rat) powi ilog2 \<bar>v\<bar> < 2 powi (e + 1)"
    by linarith
  then have "ilog2 \<bar>v\<bar> < e + 1" by (simp add: p2_less_iff)
  with assms(3) show ?thesis by (simp add: ulp_exp_def)
qed

text \<open>Evaluation of a rounding from the exponent and the rounded significand.\<close>

lemma round_double_eval:
  assumes "2 powi e \<le> \<bar>v\<bar>" "\<bar>v\<bar> < 2 powi (e + 1)" "q = max (e - 52) (- 1074)"
    and "rne (v / 2 powi q) = k" "k \<noteq> 0" "\<bar>of_int k * 2 powi q :: rat\<bar> < 2 ^ 1024"
  shows "round_double v = Fin (of_int k * 2 powi q)"
proof -
  have "0 < (2::rat) powi e" by simp
  with assms(1) have "0 < \<bar>v\<bar>" by (rule less_le_trans [rotated])
  then have v: "v \<noteq> 0" by simp
  have q: "ulp_exp v = q" using ulp_exp_eq [OF assms(1,2)] assms(3) by simp
  show ?thesis using v assms(4-6) by (simp add: round_double_def q Let_def)
qed

lemma round_double_exact:
  assumes "is_double v"
  shows "round_double v = Fin v"
proof (cases "v = 0")
  case True
  then show ?thesis by (simp add: round_double_def)
next
  case False
  with assms have z: "v / 2 powi ulp_exp v \<in> \<int>" and b: "\<bar>v\<bar> < 2 ^ 1024"
    by (simp_all add: is_double_def)
  from z obtain k where k: "v / 2 powi ulp_exp v = of_int k" by (auto elim: Ints_cases)
  have "of_int k * 2 powi ulp_exp v = v / 2 powi ulp_exp v * 2 powi ulp_exp v"
    by (simp only: k)
  also have "\<dots> = v" by simp
  finally have "of_int (rne (v / 2 powi ulp_exp v)) * 2 powi ulp_exp v = v"
    by (simp only: k rne_of_int)
  with False b show ?thesis by (simp add: round_double_def Let_def)
qed

lemma is_double_dyadic:
  assumes "\<bar>k\<bar> < 2 ^ 53" "- 1074 \<le> j" "\<bar>of_int k * 2 powi j :: rat\<bar> < 2 ^ 1024"
  shows "is_double (of_int k * 2 powi j)"
proof (cases "k = 0")
  case True
  then show ?thesis by (simp add: is_double_def)
next
  case False
  let ?v = "of_int k * 2 powi j :: rat"
  have v0: "?v \<noteq> 0" using False by simp
  have "\<bar>?v\<bar> = of_int \<bar>k\<bar> * 2 powi j" by (simp add: abs_mult)
  also have "\<dots> < of_int (2 ^ 53) * 2 powi j"
    using assms(1) by (intro mult_strict_right_mono) (simp_all only: of_int_less_iff p2_pos)
  also have "\<dots> = 2 powi (j + 52 + 1)" by (simp add: p2_add)
  finally have lt: "\<bar>?v\<bar> < 2 powi (j + 52 + 1)" .
  have "ulp_exp ?v \<le> j + 52 - 52"
    by (rule ulp_exp_upper [OF v0 lt]) (use assms(2) in simp)
  then have le: "ulp_exp ?v \<le> j" by simp
  have "?v / 2 powi ulp_exp ?v = of_int k * 2 powi (j - ulp_exp ?v)"
    by (simp add: p2_diff)
  also have "\<dots> = of_int (k * 2 ^ nat (j - ulp_exp ?v))"
    using le by (simp add: power_int_nonneg_exp)
  finally have "?v / 2 powi ulp_exp ?v \<in> \<int>" by (simp only: Ints_of_int)
  with assms(3) show ?thesis by (simp add: is_double_def)
qed

lemma is_double_int:
  assumes "\<bar>k\<bar> < 2 ^ 53"
  shows "is_double (of_int k)"
proof -
  have "\<bar>of_int k :: rat\<bar> < of_int (2 ^ 53)"
    using assms by (simp only: of_int_less_iff flip: of_int_abs)
  also have "\<dots> < 2 ^ 1024" by simp
  finally have "\<bar>of_int k * 2 powi 0 :: rat\<bar> < 2 ^ 1024" by simp
  from is_double_dyadic [OF assms _ this] show ?thesis by simp
qed

lemma round_double_int: "\<bar>k\<bar> < 2 ^ 53 \<Longrightarrow> round_double (of_int k) = Fin (of_int k)"
  by (rule round_double_exact) (rule is_double_int)

text \<open>Between \<open>2 ^ 52\<close> and \<open>2 ^ 53\<close> the binary64 values are the integers.\<close>

lemma round_double_grid:
  assumes "2 ^ 52 \<le> \<bar>u\<bar>" "\<bar>u\<bar> < 2 ^ 53"
  shows "round_double u = Fin (of_int (rne u))"
proof -
  have u0: "u \<noteq> 0" using assms(1) by auto
  have q: "ulp_exp u = 0" using ulp_exp_eq [of 52 u] assms by simp
  have "\<bar>of_int (rne u) - u\<bar> \<le> 1 / 2" by (rule rne_error)
  with assms have "\<bar>of_int (rne u) :: rat\<bar> < 2 ^ 1024" by (simp add: abs_if split: if_splits)
  moreover have "rne u \<noteq> 0"
  proof (cases "0 \<le> u")
    case True
    with assms(1) have "of_int (2 ^ 52) \<le> u" by simp
    then have "2 ^ 52 \<le> rne u" by (rule rne_ge)
    then show ?thesis by simp
  next
    case False
    with assms(1) have "u \<le> of_int (- (2 ^ 52))" by simp
    then have "rne u \<le> - (2 ^ 52)" by (rule rne_le)
    then show ?thesis by simp
  qed
  ultimately show ?thesis using u0 by (simp add: round_double_def q Let_def)
qed

text \<open>From 1 up to \<open>2 ^ 51\<close> a rounding moves a value by a quarter at most.\<close>

lemma round_double_near:
  assumes "1 \<le> \<bar>v\<bar>" "\<bar>v\<bar> \<le> 2 ^ 51"
  shows "\<exists>y. round_double v = Fin y \<and> \<bar>y - v\<bar> \<le> 1 / 4"
proof -
  have v0: "v \<noteq> 0" using assms(1) by auto
  let ?q = "ulp_exp v"
  let ?r = "of_int (rne (v / 2 powi ?q)) * 2 powi ?q :: rat"
  have "\<bar>v\<bar> < 2 powi (51 + 1)" using assms(2) by simp
  from ulp_exp_upper [OF v0 this] have q: "?q \<le> - 1" by simp
  then have "(2::rat) powi ?q \<le> 2 powi (- 1)" by (simp only: p2_le_iff)
  then have q2: "(2::rat) powi ?q \<le> 1 / 2" by simp
  have "?r - v = (of_int (rne (v / 2 powi ?q)) - v / 2 powi ?q) * 2 powi ?q" 
    by (simp add: algebra_simps)
  then have "\<bar>?r - v\<bar> = \<bar>of_int (rne (v / 2 powi ?q)) - v / 2 powi ?q\<bar> * 2 powi ?q"
    by (simp add: abs_mult)
  also have "\<dots> \<le> (1 / 2) * (1 / 2)"
    by (intro mult_mono rne_error q2) simp_all
  finally have err: "\<bar>?r - v\<bar> \<le> 1 / 4" by simp
  with assms have "?r \<noteq> 0" "\<bar>?r\<bar> < 2 ^ 1024" by (auto simp: abs_if split: if_splits)
  then have "round_double v = Fin ?r" using v0 by (simp add: round_double_def Let_def)
  with err show ?thesis by blast
qed

lemma rne_minus: "rne (- s) = - rne s"
proof (cases "s \<in> \<int>")
  case True
  then obtain k where "s = of_int k" by (auto elim: Ints_cases)
  then have "rne s = k" "rne (- s) = - k"
    using rne_of_int [of k] rne_of_int [of "- k"] by simp_all
  then show ?thesis by simp
next
  case False
  define f where "f = \<lfloor>s\<rfloor>"
  define d where "d = s - of_int f"
  have ne: "s \<noteq> of_int \<lfloor>s\<rfloor>" using False by (metis Ints_of_int)
  then have fl: "\<lfloor>- s\<rfloor> = - f - 1" by (simp add: f_def floor_minus ceiling_altdef)
  have d: "0 < d" "d < 1"
  proof -
    have "of_int f \<le> s" "s < of_int f + 1" unfolding f_def by linarith+
    moreover have "s \<noteq> of_int f" using ne by (simp add: f_def)
    ultimately show "0 < d" "d < 1" by (simp_all add: d_def)
  qed
  have a: "rne s = (if d < 1 / 2 then f else if 1 / 2 < d then f + 1 else if even f then f else f + 1)"
    by (simp add: rne_def Let_def f_def d_def)
  have "- s - of_int (- f - 1) = 1 - d" by (simp add: d_def)
  then have b: "rne (- s) = (if 1 - d < 1 / 2 then - f - 1 else if 1 / 2 < 1 - d then - f
                              else if even (- f - 1) then - f - 1 else - f)"
    by (simp add: rne_def Let_def fl)
  show ?thesis unfolding a b using d by auto
qed

lemma ulp_exp_minus: "ulp_exp (- v) = ulp_exp v"
  by (simp add: ulp_exp_def)

lemma is_double_minus: "is_double (- v) = is_double v"
proof -
  have "- v / 2 powi ulp_exp v = - (v / 2 powi ulp_exp v)" by simp
  then have "(- v / 2 powi ulp_exp v \<in> \<int>) = (v / 2 powi ulp_exp v \<in> \<int>)"
    by (simp only: minus_in_Ints_iff)
  then show ?thesis by (simp add: is_double_def ulp_exp_minus)
qed

text \<open>Rounding is symmetric about zero.\<close>

lemma round_double_minus:
  assumes "round_double v = Fin y" "v \<noteq> 0" "y \<noteq> 0"
  shows "round_double (- v) = Fin (- y)"
proof -
  let ?q = "ulp_exp v"
  let ?r = "of_int (rne (v / 2 powi ?q)) * 2 powi ?q :: rat"
  from assms have r: "?r = y" "\<not> 2 ^ 1024 \<le> \<bar>?r\<bar>"
    by (auto simp: round_double_def Let_def split: if_splits)
  have "of_int (rne (- v / 2 powi ?q)) * 2 powi ?q = - ?r"
    using rne_minus [of "v / 2 powi ?q"] by simp
  with r assms(2,3) show ?thesis
    by (simp add: round_double_def Let_def ulp_exp_minus)
qed

lemma round_double_grid_closed:
  assumes "2 ^ 52 \<le> \<bar>u\<bar>" "\<bar>u\<bar> \<le> 2 ^ 53"
  shows "round_double u = Fin (of_int (rne u))"
proof (cases "\<bar>u\<bar> < 2 ^ 53")
  case True
  with assms(1) show ?thesis by (rule round_double_grid)
next
  case False
  with assms(2) have "\<bar>u\<bar> = 2 ^ 53" by simp
  then have "u = of_int (2 ^ 53) \<or> u = of_int (- (2 ^ 53))" by (auto simp: abs_if split: if_splits)
  then obtain k :: int where u: "u = of_int k" and k: "k = 2 ^ 53 \<or> k = - (2 ^ 53)" by blast
  from k have "is_double (of_int (k div 2 ^ 53) * 2 powi 53)"
    by (intro is_double_dyadic) auto
  moreover from k have "(of_int (k div 2 ^ 53) * 2 powi 53 :: rat) = of_int k" by auto
  ultimately have "is_double (of_int k)" by (simp only:)
  then have "round_double (of_int k) = Fin (of_int k)" by (rule round_double_exact)
  then show ?thesis by (simp only: u rne_of_int)
qed

section \<open>Properties of \<^verbatim>\<open>loki::round\<close>\<close>

lemma round_double_numeral:
  "(numeral n :: int) < 2 ^ 53 \<Longrightarrow> round_double (numeral n) = Fin (numeral n)"
  using round_double_int [of "numeral n"] by simp

lemma round_double_neg_numeral:
  "(numeral n :: int) < 2 ^ 53 \<Longrightarrow> round_double (- numeral n) = Fin (- numeral n)"
  using round_double_int [of "- numeral n"] by simp

lemma round_double_one: "round_double 1 = Fin 1"
  using round_double_int [of 1] by simp

lemma TWO_MANT_DIG_eq: "TWO_MANT_DIG = Fin (2 ^ 52)"
  by (simp add: TWO_MANT_DIG_def DBL_MANT_DIG_def u2d_def fmul_def round_double_numeral)

lemma flt_Fin: "flt (Fin a) (Fin b) = (a < b)"
  by simp

lemma fgt_Fin: "fgt (Fin a) (Fin b) = (b < a)"
  by (simp add: fgt_def)

lemma fadd_Fin: "fadd (Fin a) (Fin b) = round_double (a + b)"
  by simp

lemma fsub_Fin: "b \<noteq> 0 \<Longrightarrow> fsub (Fin a) (Fin b) = round_double (a - b)"
  by (simp add: fsub_def)

text \<open>
  The branch \<^verbatim>\<open>0.5 <= z < TWO_MANT_DIG\<close> of \<^verbatim>\<open>loki::round\<close>: with \<open>y\<close> the rounded
  \<^verbatim>\<open>z + 0.5\<close>, the result is the integer \<open>K\<close> with \<open>y - 1 < K \<le> y\<close>.
\<close>

lemma loki_round_pos_wide:
  assumes "1 / 2 \<le> w" "w < 2 ^ 52" "round_double (w + 1 / 2) = Fin y" "0 \<le> y" "y \<le> 2 ^ 52"
  shows "\<exists>K. loki_round (Fin w) = Fin (of_int K) \<and> y - 1 < of_int K \<and> of_int K \<le> y"
proof -
  define I' where "I' = rne (y + 2 ^ 52)"
  define I where "I = I' - 2 ^ 52"
  have u: "2 ^ 52 \<le> \<bar>y + 2 ^ 52\<bar>" "\<bar>y + 2 ^ 52\<bar> \<le> 2 ^ 53" using assms(4,5) by (auto simp: abs_if)
  have e: "\<bar>of_int I' - (y + 2 ^ 52)\<bar> \<le> 1 / 2" unfolding I'_def by (rule rne_error)
  have "(of_int I :: rat) - y = of_int I' - (y + 2 ^ 52)" by (simp add: I_def)
  with e have Iy: "\<bar>of_int I - y\<bar> \<le> 1 / 2" by (simp only:)
  have Ib: "\<bar>I\<bar> < 2 ^ 53" "\<bar>I - 1\<bar> < 2 ^ 53"
  proof -
    from Iy assms(4,5) have "(of_int (- 1) :: rat) < of_int I" "(of_int I :: rat) < of_int (2 ^ 52 + 1)"
      by (auto simp: abs_if split: if_splits)
    then have "- 1 < I" "I < 2 ^ 52 + 1" by (simp_all only: of_int_less_iff)
    then show "\<bar>I\<bar> < 2 ^ 53" "\<bar>I - 1\<bar> < 2 ^ 53" by simp_all
  qed
  have g: "fgt (Fin w) (Fin 0)" "\<not> flt (Fin w) (Fin (1 / 2))" "flt (Fin w) TWO_MANT_DIG"
    using assms(1,2) by (simp_all add: fgt_def TWO_MANT_DIG_eq)
  have z1: "fadd (Fin w) (Fin (1 / 2)) = Fin y" using assms(3) by simp
  have z2: "fadd (Fin y) TWO_MANT_DIG = Fin (of_int I')"
    unfolding TWO_MANT_DIG_eq fadd_Fin I'_def by (rule round_double_grid_closed [OF u])
  have "fsub (Fin (of_int I')) TWO_MANT_DIG = round_double (of_int I' - 2 ^ 52)"
    unfolding TWO_MANT_DIG_eq by (rule fsub_Fin) simp
  also have "of_int I' - 2 ^ 52 = (of_int I :: rat)" by (simp add: I_def)
  also have "round_double (of_int I) = Fin (of_int I)" by (rule round_double_int [OF Ib(1)])
  finally have z3: "fsub (Fin (of_int I')) TWO_MANT_DIG = Fin (of_int I)" .
  have c: "fgt (Fin (of_int I)) (Fin y) = (y < of_int I)" by (rule fgt_Fin)
  have "fsub (Fin (of_int I)) (Fin 1) = round_double (of_int I - 1)" by (rule fsub_Fin) simp
  also have "of_int I - 1 = (of_int (I - 1) :: rat)" by simp
  also have "round_double (of_int (I - 1)) = Fin (of_int (I - 1))" by (rule round_double_int [OF Ib(2)])
  finally have z4: "fsub (Fin (of_int I)) (Fin 1) = Fin (of_int (I - 1))" .
  have r: "loki_round (Fin w) = (if y < of_int I then Fin (of_int (I - 1)) else Fin (of_int I))"
    unfolding loki_round_def Let_def by (simp only: g z1 z2 z3 c z4 if_True if_False)
  show ?thesis
  proof (cases "y < of_int I")
    case True
    with r Iy show ?thesis by (intro exI [of _ "I - 1"]) (auto simp: abs_if split: if_splits)
  next
    case False
    with r Iy show ?thesis by (intro exI [of _ I]) (auto simp: abs_if split: if_splits)
  qed
qed

text \<open>The mirrored branch \<^verbatim>\<open>-TWO_MANT_DIG < z <= -0.5\<close>.\<close>

lemma loki_round_neg_wide:
  assumes "w \<le> - (1 / 2)" "- (2 ^ 52) < w" "round_double (w - 1 / 2) = Fin y" "y \<le> 0" "- (2 ^ 52) \<le> y"
  shows "\<exists>K. loki_round (Fin w) = Fin (of_int K) \<and> y \<le> of_int K \<and> of_int K < y + 1"
proof -
  define I' where "I' = rne (y - 2 ^ 52)"
  define I where "I = I' + 2 ^ 52"
  have u: "2 ^ 52 \<le> \<bar>y - 2 ^ 52\<bar>" "\<bar>y - 2 ^ 52\<bar> \<le> 2 ^ 53" using assms(4,5) by (auto simp: abs_if)
  have e: "\<bar>of_int I' - (y - 2 ^ 52)\<bar> \<le> 1 / 2" unfolding I'_def by (rule rne_error)
  have "(of_int I :: rat) - y = of_int I' - (y - 2 ^ 52)" by (simp add: I_def)
  with e have Iy: "\<bar>of_int I - y\<bar> \<le> 1 / 2" by (simp only:)
  have Ib: "\<bar>I\<bar> < 2 ^ 53" "\<bar>I + 1\<bar> < 2 ^ 53"
  proof -
    from Iy assms(4,5) have "(of_int I :: rat) < of_int 1" "(of_int (- (2 ^ 52) - 1) :: rat) < of_int I"
      by (auto simp: abs_if split: if_splits)
    then have "I < 1" "- (2 ^ 52) - 1 < I" by (simp_all only: of_int_less_iff)
    then show "\<bar>I\<bar> < 2 ^ 53" "\<bar>I + 1\<bar> < 2 ^ 53" by simp_all
  qed
  have g: "\<not> fgt (Fin w) (Fin 0)" "flt (Fin w) (Fin 0)" "\<not> fgt (Fin w) (fneg (Fin (1 / 2)))"
    "fgt (Fin w) (fneg TWO_MANT_DIG)"
    using assms(1,2) by (simp_all add: fgt_def TWO_MANT_DIG_eq)
  have z1: "fsub (Fin w) (Fin (1 / 2)) = Fin y" using assms(3) by (simp add: fsub_def)
  have "fsub (Fin y) TWO_MANT_DIG = round_double (y - 2 ^ 52)"
    unfolding TWO_MANT_DIG_eq by (rule fsub_Fin) simp
  also have "\<dots> = Fin (of_int I')" unfolding I'_def by (rule round_double_grid_closed [OF u])
  finally have z2: "fsub (Fin y) TWO_MANT_DIG = Fin (of_int I')" .
  have "fadd (Fin (of_int I')) TWO_MANT_DIG = round_double (of_int I' + 2 ^ 52)"
    unfolding TWO_MANT_DIG_eq by (rule fadd_Fin)
  also have "of_int I' + 2 ^ 52 = (of_int I :: rat)" by (simp add: I_def)
  also have "round_double (of_int I) = Fin (of_int I)" by (rule round_double_int [OF Ib(1)])
  finally have z3: "fadd (Fin (of_int I')) TWO_MANT_DIG = Fin (of_int I)" .
  have c: "flt (Fin (of_int I)) (Fin y) = (of_int I < y)" by (rule flt_Fin)
  have "fadd (Fin (of_int I)) (Fin 1) = round_double (of_int I + 1)" by (rule fadd_Fin)
  also have "of_int I + 1 = (of_int (I + 1) :: rat)" by simp
  also have "round_double (of_int (I + 1)) = Fin (of_int (I + 1))" by (rule round_double_int [OF Ib(2)])
  finally have z4: "fadd (Fin (of_int I)) (Fin 1) = Fin (of_int (I + 1))" .
  have r: "loki_round (Fin w) = (if of_int I < y then Fin (of_int (I + 1)) else Fin (of_int I))"
    unfolding loki_round_def Let_def by (simp only: g z1 z2 z3 c z4 if_True if_False)
  show ?thesis
  proof (cases "of_int I < y")
    case True
    with r Iy show ?thesis by (intro exI [of _ "I + 1"]) (auto simp: abs_if split: if_splits)
  next
    case False
    with r Iy show ?thesis by (intro exI [of _ I]) (auto simp: abs_if split: if_splits)
  qed
qed

text \<open>The two branches for a \<open>z\<close> up to \<open>2 ^ 50\<close> whose \<^verbatim>\<open>z + 0.5\<close> is rounded by a quarter at most.\<close>

lemma loki_round_pos:
  assumes "1 / 2 \<le> w" "w \<le> 2 ^ 50" "round_double (w + 1 / 2) = Fin y" "\<bar>y - (w + 1 / 2)\<bar> \<le> 1 / 4"
  shows "\<exists>K. loki_round (Fin w) = Fin (of_int K) \<and> y - 1 < of_int K \<and> of_int K \<le> y"
proof -
  from assms(1,2,4) have b: "w < 2 ^ 52" "0 \<le> y" "y \<le> 2 ^ 52"
    by (auto simp: abs_if split: if_splits)
  from loki_round_pos_wide [OF assms(1) b(1) assms(3) b(2,3)] show ?thesis .
qed

lemma loki_round_neg:
  assumes "w \<le> - (1 / 2)" "- (2 ^ 50) \<le> w" "round_double (w - 1 / 2) = Fin y" "\<bar>y - (w - 1 / 2)\<bar> \<le> 1 / 4"
  shows "\<exists>K. loki_round (Fin w) = Fin (of_int K) \<and> y \<le> of_int K \<and> of_int K < y + 1"
proof -
  from assms(1,2,4) have b: "- (2 ^ 52) < w" "y \<le> 0" "- (2 ^ 52) \<le> y"
    by (auto simp: abs_if split: if_splits)
  from loki_round_neg_wide [OF assms(1) b(1) assms(3) b(2,3)] show ?thesis .
qed

lemma loki_round_small:
  "0 < w \<Longrightarrow> w < 1 / 2 \<Longrightarrow> loki_round (Fin w) = Fin 0"
  "w < 0 \<Longrightarrow> - (1 / 2) < w \<Longrightarrow> loki_round (Fin w) = NegZero"
  "loki_round (Fin 0) = Fin 0"
  "loki_round NegZero = NegZero"
  by (simp_all add: loki_round_def fgt_def MINUS_ZERO_def)


lemma i2d_small: "\<bar>k\<bar> < 2 ^ 53 \<Longrightarrow> i2d k = Fin (of_int k)"
  by (simp add: i2d_def round_double_int)

lemma exp2_bounds_eq:
  "i2d DBL_MAX_EXP = Fin 1024" "i2d (DBL_MIN_EXP - 1 - DBL_MANT_DIG) = Fin (- 1075)"
  by (simp_all add: i2d_small DBL_MAX_EXP_def DBL_MIN_EXP_def DBL_MANT_DIG_def)

lemma flt_not_fgt: "flt x (Fin a) \<Longrightarrow> a \<le> b \<Longrightarrow> \<not> fgt x (Fin b)"
  by (cases x) (auto simp: fgt_def)

lemma is_double_decomp:
  assumes "is_double v" "v \<noteq> 0"
  shows "\<exists>k. v = of_int k * 2 powi ulp_exp v \<and> \<bar>k\<bar> < 2 ^ 53"
proof -
  let ?q = "ulp_exp v"
  from assms have "v / 2 powi ?q \<in> \<int>" by (simp add: is_double_def)
  then obtain k where k: "v / 2 powi ?q = of_int k" by (auto elim: Ints_cases)
  have "of_int k * 2 powi ?q = v / 2 powi ?q * 2 powi ?q" by (simp only: k)
  also have "\<dots> = v" by simp
  finally have v: "v = of_int k * 2 powi ?q" by simp
  have pos: "0 < \<bar>v\<bar>" using assms(2) by simp
  have "ilog2 \<bar>v\<bar> - 52 \<le> ?q" by (simp add: ulp_exp_def)
  then have "ilog2 \<bar>v\<bar> + 1 \<le> ?q + 53" by simp
  then have "(2::rat) powi (ilog2 \<bar>v\<bar> + 1) \<le> 2 powi (?q + 53)" by (simp only: p2_le_iff)
  with ilog2_bounds(2) [OF pos] have "\<bar>v\<bar> < 2 powi (?q + 53)" by linarith
  also have "\<dots> = 2 powi ?q * of_int (2 ^ 53)" by (simp add: p2_add)
  finally have "\<bar>v\<bar> / 2 powi ?q < of_int (2 ^ 53)"
    by (simp add: pos_divide_less_eq mult.commute)
  moreover have "\<bar>v\<bar> / 2 powi ?q = of_int \<bar>k\<bar>"
  proof -
    have "\<bar>v\<bar> / 2 powi ?q = \<bar>v / 2 powi ?q\<bar>" by (simp add: abs_divide)
    also have "\<dots> = \<bar>of_int k\<bar>" by (simp only: k)
    finally show ?thesis by simp
  qed
  ultimately have "(of_int \<bar>k\<bar> :: rat) < of_int (2 ^ 53)" by (simp only:)
  then have "\<bar>k\<bar> < 2 ^ 53" by (simp only: of_int_less_iff)
  with v show ?thesis by blast
qed

lemma is_double_scale:
  assumes "is_double v" "\<bar>v\<bar> \<le> 1075"
  shows "is_double (v * 256)"
proof (cases "v = 0")
  case True
  then show ?thesis by (simp add: is_double_def)
next
  case False
  from is_double_decomp [OF assms(1) False] obtain k
    where v: "v = of_int k * 2 powi ulp_exp v" and k: "\<bar>k\<bar> < 2 ^ 53" by blast
  have "v * 256 = of_int k * 2 powi ulp_exp v * 2 powi 8" by (subst v) simp
  also have "\<dots> = of_int k * 2 powi (ulp_exp v + 8)" by (simp add: p2_add)
  finally have e: "v * 256 = of_int k * 2 powi (ulp_exp v + 8)" .
  have "\<bar>v * 256\<bar> < 2 ^ 1024" using assms(2) by (simp add: abs_mult)
  then have b: "\<bar>of_int k * 2 powi (ulp_exp v + 8) :: rat\<bar> < 2 ^ 1024" by (simp only: e)
  have j: "- 1074 \<le> ulp_exp v + 8" using ulp_exp_ge [of v] by simp
  from is_double_dyadic [OF k j b] show ?thesis by (simp only: e)
qed

lemma is_double_256th:
  assumes "\<bar>k\<bar> < 2 ^ 53"
  shows "is_double (of_int k / 256)"
proof -
  have "\<bar>of_int k :: rat\<bar> < of_int (2 ^ 53)"
    using assms by (simp only: of_int_less_iff flip: of_int_abs)
  then have "\<bar>of_int k * 2 powi (- 8) :: rat\<bar> < 2 ^ 1024" by (simp add: abs_mult)
  from is_double_dyadic [OF assms _ this] show ?thesis by simp
qed

text \<open>
  \<^verbatim>\<open>loki::round\<close> of a value up to \<open>2 ^ 50\<close> in magnitude is an integer (or the negative
  zero), at most 1 larger in magnitude.
\<close>

lemma loki_round_bounded:
  assumes "\<bar>w\<bar> \<le> 2 ^ 50"
  shows "\<exists>K. int_valued (loki_round (Fin w)) K \<and> \<bar>of_int K\<bar> \<le> \<bar>w\<bar> + 1"
proof -
  consider "w = 0" | "0 < w" "w < 1 / 2" | "w < 0" "- (1 / 2) < w" | "1 / 2 \<le> w" | "w \<le> - (1 / 2)"
    by linarith
  then show ?thesis
  proof cases
    case 1
    then show ?thesis by (intro exI [of _ 0]) (simp add: int_valued_def loki_round_small)
  next
    case 2
    then show ?thesis by (intro exI [of _ 0]) (simp add: int_valued_def loki_round_small)
  next
    case 3
    then show ?thesis by (intro exI [of _ 0]) (simp add: int_valued_def loki_round_small)
  next
    case 4
    with assms have b: "1 \<le> \<bar>w + 1 / 2\<bar>" "\<bar>w + 1 / 2\<bar> \<le> 2 ^ 51" "w \<le> 2 ^ 50" by (auto simp: abs_if)
    from round_double_near [OF b(1,2)] obtain y
      where y: "round_double (w + 1 / 2) = Fin y" "\<bar>y - (w + 1 / 2)\<bar> \<le> 1 / 4" by blast
    from loki_round_pos [OF 4 b(3) y] obtain K
      where K: "loki_round (Fin w) = Fin (of_int K)" "y - 1 < of_int K" "of_int K \<le> y" by blast
    from K(2,3) y(2) 4 have "\<bar>of_int K\<bar> \<le> \<bar>w\<bar> + 1" by (auto simp: abs_if split: if_splits)
    with K(1) show ?thesis by (auto simp: int_valued_def)
  next
    case 5
    with assms have b: "1 \<le> \<bar>w - 1 / 2\<bar>" "\<bar>w - 1 / 2\<bar> \<le> 2 ^ 51" "- (2 ^ 50) \<le> w" by (auto simp: abs_if)
    from round_double_near [OF b(1,2)] obtain y
      where y: "round_double (w - 1 / 2) = Fin y" "\<bar>y - (w - 1 / 2)\<bar> \<le> 1 / 4" by blast
    from loki_round_neg [OF 5 b(3) y] obtain K
      where K: "loki_round (Fin w) = Fin (of_int K)" "y \<le> of_int K" "of_int K < y + 1" by blast
    from K(2,3) y(2) 5 have "\<bar>of_int K\<bar> \<le> \<bar>w\<bar> + 1" by (auto simp: abs_if split: if_splits)
    with K(1) show ?thesis by (auto simp: int_valued_def)
  qed
qed

text \<open>
  Where \<open>w + 1 / 2\<close> and \<open>w - 1 / 2\<close> are binary64 values, \<^verbatim>\<open>loki::round\<close> gives an integer
  nearest to \<open>w\<close>.
\<close>

lemma loki_round_nearest:
  assumes "\<bar>w\<bar> \<le> 2 ^ 50" "is_double (w + 1 / 2)" "is_double (w - 1 / 2)"
  shows "\<exists>K. int_valued (loki_round (Fin w)) K \<and> \<bar>of_int K - w\<bar> \<le> 1 / 2"
proof -
  consider "w = 0" | "0 < w" "w < 1 / 2" | "w < 0" "- (1 / 2) < w" | "1 / 2 \<le> w" | "w \<le> - (1 / 2)"
    by linarith
  then show ?thesis
  proof cases
    case 1
    then show ?thesis by (intro exI [of _ 0]) (simp add: int_valued_def loki_round_small)
  next
    case 2
    then show ?thesis by (intro exI [of _ 0]) (simp add: int_valued_def loki_round_small)
  next
    case 3
    then show ?thesis by (intro exI [of _ 0]) (simp add: int_valued_def loki_round_small)
  next
    case 4
    with assms have b: "w \<le> 2 ^ 50" by (auto simp: abs_if)
    have y: "round_double (w + 1 / 2) = Fin (w + 1 / 2)" "\<bar>(w + 1 / 2) - (w + 1 / 2)\<bar> \<le> 1 / 4"
      using round_double_exact [OF assms(2)] by simp_all
    from loki_round_pos [OF 4 b y] obtain K
      where K: "loki_round (Fin w) = Fin (of_int K)" "w + 1 / 2 - 1 < of_int K" "of_int K \<le> w + 1 / 2"
      by blast
    from K(2,3) have "\<bar>of_int K - w\<bar> \<le> 1 / 2" by (auto simp: abs_if)
    with K(1) show ?thesis by (auto simp: int_valued_def)
  next
    case 5
    with assms have b: "- (2 ^ 50) \<le> w" by (auto simp: abs_if)
    have y: "round_double (w - 1 / 2) = Fin (w - 1 / 2)" "\<bar>(w - 1 / 2) - (w - 1 / 2)\<bar> \<le> 1 / 4"
      using round_double_exact [OF assms(3)] by simp_all
    from loki_round_neg [OF 5 b y] obtain K
      where K: "loki_round (Fin w) = Fin (of_int K)" "w - 1 / 2 \<le> of_int K" "of_int K < w - 1 / 2 + 1"
      by blast
    from K(2,3) have "\<bar>of_int K - w\<bar> \<le> 1 / 2" by (auto simp: abs_if)
    with K(1) show ?thesis by (auto simp: int_valued_def)
  qed
qed

lemma d2i_int_valued:
  assumes "int_valued d K" "- (2 ^ 31) \<le> K" "K \<le> 2 ^ 31 - 1"
  shows "d2i d = Inr K"
  using assms by (auto simp: int_valued_def d2i_def)

text \<open>Ties: a value halfway between two integers goes to the one away from zero.\<close>

lemma loki_round_tie:
  assumes "0 \<le> j" "j < 2 ^ 50"
  shows "loki_round (Fin (of_int j + 1 / 2)) = Fin (of_int (j + 1))"
    and "loki_round (Fin (- (of_int j + 1 / 2))) = Fin (- of_int (j + 1))"
proof -
  have j53: "\<bar>j + 1\<bar> < 2 ^ 53" "\<bar>- (j + 1)\<bar> < 2 ^ 53" using assms by simp_all
  have "(of_int 0 :: rat) \<le> of_int j" "(of_int j :: rat) \<le> of_int (2 ^ 50 - 1)"
    using assms by (simp_all only: of_int_le_iff)
  then have b: "(0 :: rat) \<le> of_int j" "(of_int j :: rat) \<le> 2 ^ 50 - 1" by simp_all
  let ?w = "of_int j + 1 / 2 :: rat"
  have w: "1 / 2 \<le> ?w" "?w \<le> 2 ^ 50" using b by simp_all
  have "?w + 1 / 2 = of_int (j + 1)" by simp
  then have y: "round_double (?w + 1 / 2) = Fin (of_int (j + 1))"
    using round_double_int [OF j53(1)] by (simp only:)
  have e: "\<bar>of_int (j + 1) - (?w + 1 / 2)\<bar> \<le> 1 / 4" by simp
  from loki_round_pos [OF w y e] obtain K
    where K: "loki_round (Fin ?w) = Fin (of_int K)"
      and "(of_int (j + 1) :: rat) - 1 < of_int K" "(of_int K :: rat) \<le> of_int (j + 1)" by blast
  then have "(of_int j :: rat) < of_int K" "(of_int K :: rat) \<le> of_int (j + 1)" by simp_all
  then have "j < K" "K \<le> j + 1" by (simp_all only: of_int_less_iff of_int_le_iff)
  then have "K = j + 1" by simp
  with K show "loki_round (Fin ?w) = Fin (of_int (j + 1))" by simp
  let ?v = "- (of_int j + 1 / 2) :: rat"
  have v: "?v \<le> - (1 / 2)" "- (2 ^ 50) \<le> ?v" using b by simp_all
  have "?v - 1 / 2 = of_int (- (j + 1))" by simp
  then have y': "round_double (?v - 1 / 2) = Fin (of_int (- (j + 1)))"
    using round_double_int [OF j53(2)] by (simp only:)
  have e': "\<bar>of_int (- (j + 1)) - (?v - 1 / 2)\<bar> \<le> 1 / 4" by simp
  from loki_round_neg [OF v y' e'] obtain L
    where L: "loki_round (Fin ?v) = Fin (of_int L)"
      and "(of_int (- (j + 1)) :: rat) \<le> of_int L" "(of_int L :: rat) < of_int (- (j + 1)) + 1" by blast
  then have "(of_int (- (j + 1)) :: rat) \<le> of_int L" "(of_int L :: rat) < of_int (- j)" by simp_all
  then have "- (j + 1) \<le> L" "L < - j" by (simp_all only: of_int_less_iff of_int_le_iff)
  then have "L = - (j + 1)" by simp
  with L show "loki_round (Fin ?v) = Fin (- of_int (j + 1))" by simp
qed

text \<open>An integer is returned as it is.\<close>

lemma loki_round_integer:
  assumes "\<bar>N\<bar> \<le> 2 ^ 50"
  shows "loki_round (Fin (of_int N)) = Fin (of_int N)"
proof (cases "N = 0")
  case True
  then show ?thesis by (simp add: loki_round_small)
next
  case False
  let ?w = "of_int N :: rat"
  have "(of_int \<bar>N\<bar> :: rat) \<le> of_int (2 ^ 50)" using assms by (simp only: of_int_le_iff)
  then have w: "\<bar>?w\<bar> \<le> 2 ^ 50" by simp
  have k: "\<bar>2 * N + 1\<bar> < 2 ^ 53" "\<bar>2 * N - 1\<bar> < 2 ^ 53" using assms by simp_all
  have e: "of_int (2 * N + 1) * 2 powi (- 1) = ?w + 1 / 2"
    "of_int (2 * N - 1) * 2 powi (- 1) = ?w - 1 / 2" by simp_all
  have "(2::rat) ^ 50 + 1 < 2 ^ 1024" by simp
  with w have "\<bar>?w + 1 / 2\<bar> < 2 ^ 1024" "\<bar>?w - 1 / 2\<bar> < 2 ^ 1024" by linarith+
  then have b: "\<bar>of_int (2 * N + 1) * 2 powi (- 1) :: rat\<bar> < 2 ^ 1024"
    "\<bar>of_int (2 * N - 1) * 2 powi (- 1) :: rat\<bar> < 2 ^ 1024" by (simp_all only: e)
  have "is_double (of_int (2 * N + 1) * 2 powi (- 1))"
    by (rule is_double_dyadic [OF k(1) _ b(1)]) simp
  then have h1: "is_double (?w + 1 / 2)" by (simp only: e)
  have "is_double (of_int (2 * N - 1) * 2 powi (- 1))"
    by (rule is_double_dyadic [OF k(2) _ b(2)]) simp
  then have h2: "is_double (?w - 1 / 2)" by (simp only: e)
  from loki_round_nearest [OF w h1 h2] obtain K
    where K: "int_valued (loki_round (Fin ?w)) K" "\<bar>of_int K - ?w\<bar> \<le> 1 / 2" by blast
  from K(2) have "(of_int (N - 1) :: rat) < of_int K" "(of_int K :: rat) < of_int (N + 1)"
    by (auto simp: abs_if split: if_splits)
  then have "N - 1 < K" "K < N + 1" by (simp_all only: of_int_less_iff)
  then have "K = N" by simp
  with K(1) False show ?thesis by (simp add: int_valued_def)
qed

subsection \<open>Every finite double\<close>

text \<open>
  For a binary64 value \<open>w\<close> with \<open>1 / 2 \<le> w < 2 ^ 52\<close> the rounded sum \<open>w + 1 / 2\<close> lies
  between the same two integers as the exact one: the sum is either a binary64 value itself,
  or it lies less than a half above a power of two, where the rounding cannot reach the next
  integer.
\<close>

lemma round_half_pos:
  assumes "is_double w" "1 / 2 \<le> w" "w < 2 ^ 52"
  shows "\<exists>y N. round_double (w + 1 / 2) = Fin y \<and> of_int N \<le> y \<and> y < of_int N + 1
           \<and> of_int N \<le> w + 1 / 2 \<and> w + 1 / 2 < of_int N + 1 \<and> 0 \<le> y \<and> y \<le> 2 ^ 52"
proof -
  let ?q = "ulp_exp w"
  define p :: rat where "p = 2 powi ?q"
  define v where "v = w + 1 / 2"
  have w0: "w \<noteq> 0" using assms(2) by auto
  have aw: "\<bar>w\<bar> = w" using assms(2) by simp
  from is_double_decomp [OF assms(1) w0] obtain k
    where k: "w = of_int k * p" "\<bar>k\<bar> < 2 ^ 53" unfolding p_def by blast
  have p0: "0 < p" by (simp add: p_def)
  have "\<bar>w\<bar> < 2 powi (51 + 1)" using assms(3) aw by simp
  from ulp_exp_upper [OF w0 this] have qu: "?q \<le> - 1" by simp
  have ql: "- 53 \<le> ?q"
  proof -
    have "0 < \<bar>w\<bar>" using w0 by simp
    from ilog2_bounds(2) [OF this] have "\<bar>w\<bar> < 2 powi (ilog2 \<bar>w\<bar> + 1)" .
    moreover have "(2::rat) powi (- 1) \<le> \<bar>w\<bar>" using assms(2) aw by simp
    ultimately have "(2::rat) powi (- 1) < 2 powi (ilog2 \<bar>w\<bar> + 1)" by linarith
    then have "- 1 < ilog2 \<bar>w\<bar> + 1" by (simp only: p2_less_iff)
    then show ?thesis by (simp add: ulp_exp_def)
  qed
  have "(2::rat) powi ?q \<le> 2 powi (- 1)" using qu by (simp only: p2_le_iff)
  then have ph: "p \<le> 1 / 2" by (simp add: p_def)
  define h :: int where "h = 2 ^ nat (- 1 - ?q)"
  define M :: int where "M = 2 ^ nat (53 + ?q)"
  have "(of_int h :: rat) = 2 powi (- 1 - ?q)" using qu by (simp add: h_def power_int_nonneg_exp)
  then have "(of_int h :: rat) * p = 2 powi (- 1 - ?q + ?q)" by (simp only: p_def p2_add)
  then have hp: "of_int h * p = 1 / 2" by simp
  have "(of_int M :: rat) = 2 powi (53 + ?q)" using ql by (simp add: M_def power_int_nonneg_exp)
  then have Mp: "of_int M = 2 ^ 53 * p" by (simp add: p_def p2_add)
  have M1: "1 \<le> M" by (simp add: M_def)
  have "nat (53 + ?q) \<le> 52" using qu by simp
  then have "(2::int) ^ nat (53 + ?q) \<le> 2 ^ 52" by (intro power_increasing) simp_all
  then have M52: "M \<le> 2 ^ 52" by (simp add: M_def)
  have Mr: "(1::rat) \<le> of_int M" "(of_int M :: rat) \<le> 2 ^ 52"
  proof -
    have "(of_int 1 :: rat) \<le> of_int M" "(of_int M :: rat) \<le> of_int (2 ^ 52)"
      using M1 M52 by (simp_all only: of_int_le_iff)
    then show "(1::rat) \<le> of_int M" "(of_int M :: rat) \<le> 2 ^ 52" by simp_all
  qed
  have kpos: "0 < k"
  proof (rule ccontr)
    assume "\<not> 0 < k"
    then have "(of_int k :: rat) \<le> 0" by simp
    then have "of_int k * p \<le> 0" using p0 by (simp add: mult_le_0_iff)
    with k(1) assms(2) show False by simp
  qed
  have v: "v = of_int (k + h) * p" using hp k(1) by (simp add: v_def algebra_simps)
  have vb: "1 \<le> v" "v < 2 ^ 52 + 1 / 2" using assms(2,3) by (simp_all add: v_def)
  have v0: "v \<noteq> 0" using vb by auto
  have av: "\<bar>v\<bar> = v" using vb by simp
  have "\<exists>y N. round_double v = Fin y \<and> of_int N \<le> y \<and> y < of_int N + 1
           \<and> of_int N \<le> v \<and> v < of_int N + 1 \<and> 0 \<le> y \<and> y \<le> 2 ^ 52"
  proof -
    consider "k + h < 2 ^ 53" | "k + h = 2 ^ 53" | "2 ^ 53 < k + h" by linarith
    then show ?thesis
    proof cases
      case 1
      have hpos: "0 < h" by (simp add: h_def)
      have a: "\<bar>k + h\<bar> < 2 ^ 53" using 1 kpos hpos by simp
      have "(2::rat) ^ 52 + 1 / 2 < 2 ^ 1024" by simp
      with vb av have "\<bar>v\<bar> < 2 ^ 1024" by linarith
      then have b: "\<bar>of_int (k + h) * 2 powi ?q :: rat\<bar> < 2 ^ 1024" by (simp only: v p_def)
      have "is_double (of_int (k + h) * 2 powi ?q)"
        by (rule is_double_dyadic [OF a ulp_exp_ge b])
      then have "is_double v" by (simp only: v p_def)
      then have y: "round_double v = Fin v" by (rule round_double_exact)
      define N where "N = \<lfloor>v\<rfloor>"
      have N: "of_int N \<le> v" "v < of_int N + 1" unfolding N_def by linarith+
      have "v \<le> 2 ^ 52"
      proof -
        have "k + h \<le> 2 ^ 53 - 1" using 1 by simp
        then have "(of_int (k + h) :: rat) \<le> of_int (2 ^ 53 - 1)" by (simp only: of_int_le_iff)
        then have "of_int (k + h) * p \<le> of_int (2 ^ 53 - 1) * p"
          using p0 by (intro mult_right_mono) simp_all
        also have "\<dots> = of_int M - p" using Mp by (simp add: algebra_simps)
        finally show ?thesis using Mr(2) p0 v by linarith
      qed
      with y N vb show ?thesis by (intro exI [of _ v] exI [of _ N]) simp
    next
      case 2
      then have "v = of_int (2 ^ 53) * p" by (simp only: v)
      then have vM: "v = of_int M" using Mp by simp
      have "\<bar>M\<bar> < 2 ^ 53" using M1 M52 by simp
      then have "is_double (of_int M)" by (rule is_double_int)
      then have "round_double (of_int M) = Fin (of_int M)" by (rule round_double_exact)
      with Mr show ?thesis unfolding vM by (intro exI [of _ "of_int M"] exI [of _ M]) simp
    next
      case 3
      have q2: "?q \<le> - 2"
      proof (rule ccontr)
        assume "\<not> ?q \<le> - 2"
        with qu have "?q = - 1" by simp
        then have "h = 1" by (simp add: h_def)
        with 3 k(2) show False by simp
      qed
      then have "nat (53 + ?q) \<le> 51" by simp
      then have "(2::int) ^ nat (53 + ?q) \<le> 2 ^ 51" by (intro power_increasing) simp_all
      then have "M \<le> 2 ^ 51" by (simp add: M_def)
      then have "(of_int M :: rat) \<le> of_int (2 ^ 51)" by (simp only: of_int_le_iff)
      then have M51: "(of_int M :: rat) \<le> 2 ^ 51" by simp
      from 3 have "2 ^ 53 \<le> k + h" by simp
      then have "(of_int (2 ^ 53) :: rat) \<le> of_int (k + h)" by (simp only: of_int_le_iff)
      then have "of_int (2 ^ 53) * p \<le> of_int (k + h) * p"
        using p0 by (intro mult_right_mono) simp_all
      then have Mv: "of_int M \<le> v" using Mp v by simp
      from k(2) have "k < 2 ^ 53" by simp
      then have "(of_int k :: rat) < of_int (2 ^ 53)" by (simp only: of_int_less_iff)
      then have "of_int k * p < of_int (2 ^ 53) * p"
        using p0 by (intro mult_strict_right_mono) simp_all
      then have wM: "w < of_int M" using Mp k(1) by simp
      then have vM: "v < of_int M + 1 / 2" by (simp add: v_def)
      have lo: "2 powi (53 + ?q) \<le> \<bar>v\<bar>" using Mv av Mp by (simp add: p_def p2_add)
      have "(2::rat) powi (53 + ?q + 1) = 2 * of_int M" using Mp by (simp add: p_def p2_add)
      then have hi: "\<bar>v\<bar> < 2 powi (53 + ?q + 1)" using vM Mr(1) av by linarith
      have qv: "ulp_exp v = ?q + 1" using ulp_exp_eq [OF lo hi] ql by simp
      have p2: "(2::rat) powi (?q + 1) = 2 * p" by (simp add: p_def p2_add)
      define R where "R = rne (v / (2 * p))"
      define y where "y = of_int R * (2 * p)"
      have "of_int (2 ^ 52) \<le> v / (2 * p)"
        using Mv Mp p0 by (simp add: pos_le_divide_eq)
      then have "2 ^ 52 \<le> R" unfolding R_def by (rule rne_ge)
      then have "(of_int (2 ^ 52) :: rat) \<le> of_int R" by (simp only: of_int_le_iff)
      then have "of_int (2 ^ 52) * (2 * p) \<le> of_int R * (2 * p)"
        using p0 by (intro mult_right_mono) simp_all
      then have My: "of_int M \<le> y" using Mp by (simp add: y_def)
      have "y - v = (of_int R - v / (2 * p)) * (2 * p)" using p0 by (simp add: y_def algebra_simps)
      then have "\<bar>y - v\<bar> = \<bar>of_int R - v / (2 * p)\<bar> * (2 * p)" using p0 by (simp add: abs_mult)
      also have "\<dots> \<le> (1 / 2) * (2 * p)"
        unfolding R_def using p0 by (intro mult_right_mono rne_error) simp
      finally have err: "\<bar>y - v\<bar> \<le> p" by simp
      with ph vM have yM: "y < of_int M + 1" by linarith
      have y0: "y \<noteq> 0" using My Mr(1) by linarith
      have "(2::rat) ^ 51 + 1 < 2 ^ 52" "(2::rat) ^ 52 < 2 ^ 1024" by simp_all
      with yM M51 Mr(1) My have yb: "y \<le> 2 ^ 52" "0 \<le> y" "\<bar>y\<bar> < 2 ^ 1024" by linarith+
      then have "\<not> 2 ^ 1024 \<le> \<bar>y\<bar>" by simp
      with y0 v0 have y: "round_double v = Fin y"
        unfolding round_double_def Let_def qv p2 y_def R_def by simp
      from y My yM Mv vM yb(1,2) show ?thesis
        by (intro exI [of _ y] exI [of _ M]) simp
    qed
  qed
  then show ?thesis by (simp only: v_def)
qed

lemma round_half_neg:
  assumes "is_double w" "w \<le> - (1 / 2)" "- (2 ^ 52) < w"
  shows "\<exists>y N. round_double (w - 1 / 2) = Fin y \<and> of_int N - 1 < y \<and> y \<le> of_int N
           \<and> of_int N - 1 < w - 1 / 2 \<and> w - 1 / 2 \<le> of_int N \<and> y \<le> 0 \<and> - (2 ^ 52) \<le> y"
proof -
  have d: "is_double (- w)" using assms(1) by (simp only: is_double_minus)
  have b: "1 / 2 \<le> - w" "- w < 2 ^ 52" using assms(2,3) by simp_all
  from round_half_pos [OF d b] obtain y N
    where y: "round_double (- w + 1 / 2) = Fin y"
      and N: "of_int N \<le> y" "y < of_int N + 1" "of_int N \<le> - w + 1 / 2" "- w + 1 / 2 < of_int N + 1"
      and yb: "0 \<le> y" "y \<le> 2 ^ 52" by blast
  from N(4) b(1) have "(1 :: rat) < of_int N + 1" by linarith
  then have "(of_int 1 :: rat) < of_int (N + 1)" by simp
  then have "1 < N + 1" by (simp only: of_int_less_iff)
  then have "1 \<le> N" by simp
  then have "(of_int 1 :: rat) \<le> of_int N" by (simp only: of_int_le_iff)
  with N(1) have y1: "1 \<le> y" by simp
  then have y0: "y \<noteq> 0" by auto
  have v0: "- w + 1 / 2 \<noteq> 0" using b(1) by auto
  from round_double_minus [OF y v0 y0] have "round_double (- (- w + 1 / 2)) = Fin (- y)" .
  moreover have "- (- w + 1 / 2) = w - 1 / 2" by simp
  ultimately have y': "round_double (w - 1 / 2) = Fin (- y)" by (simp only:)
  from N yb show ?thesis
    by (intro exI [of _ "- y"] exI [of _ "- N"]) (simp add: y')
qed

text \<open>
  \<^verbatim>\<open>loki::round\<close> on the binary64 values of magnitude from \<open>1 / 2\<close> up to \<open>2 ^ 52\<close>: the
  integer \<open>N\<close> with \<open>w - 1 / 2 < N \<le> w + 1 / 2\<close> for a positive \<open>w\<close>, with
  \<open>w - 1 / 2 \<le> N < w + 1 / 2\<close> for a negative one.
\<close>

lemma loki_round_pos_exact:
  assumes "is_double w" "1 / 2 \<le> w" "w < 2 ^ 52"
  shows "\<exists>N. loki_round (Fin w) = Fin (of_int N) \<and> w - 1 / 2 < of_int N \<and> of_int N \<le> w + 1 / 2"
proof -
  from round_half_pos [OF assms] obtain y N
    where y: "round_double (w + 1 / 2) = Fin y"
      and N: "of_int N \<le> y" "y < of_int N + 1" "of_int N \<le> w + 1 / 2" "w + 1 / 2 < of_int N + 1"
      and yb: "0 \<le> y" "y \<le> 2 ^ 52" by blast
  from loki_round_pos_wide [OF assms(2,3) y yb] obtain K
    where K: "loki_round (Fin w) = Fin (of_int K)" "y - 1 < of_int K" "of_int K \<le> y" by blast
  from K(2,3) N(1,2) have "(of_int (N - 1) :: rat) < of_int K" "(of_int K :: rat) < of_int (N + 1)"
    by simp_all
  then have "N - 1 < K" "K < N + 1" by (simp_all only: of_int_less_iff)
  then have "K = N" by simp
  with K(1) N(3,4) show ?thesis by (intro exI [of _ N]) simp
qed

lemma loki_round_neg_exact:
  assumes "is_double w" "w \<le> - (1 / 2)" "- (2 ^ 52) < w"
  shows "\<exists>N. loki_round (Fin w) = Fin (of_int N) \<and> w - 1 / 2 \<le> of_int N \<and> of_int N < w + 1 / 2"
proof -
  from round_half_neg [OF assms] obtain y N
    where y: "round_double (w - 1 / 2) = Fin y"
      and N: "of_int N - 1 < y" "y \<le> of_int N" "of_int N - 1 < w - 1 / 2" "w - 1 / 2 \<le> of_int N"
      and yb: "y \<le> 0" "- (2 ^ 52) \<le> y" by blast
  from loki_round_neg_wide [OF assms(2,3) y yb] obtain K
    where K: "loki_round (Fin w) = Fin (of_int K)" "y \<le> of_int K" "of_int K < y + 1" by blast
  from K(2,3) N(1,2) have "(of_int (N - 1) :: rat) < of_int K" "(of_int K :: rat) < of_int (N + 1)"
    by simp_all
  then have "N - 1 < K" "K < N + 1" by (simp_all only: of_int_less_iff)
  then have "K = N" by simp
  with K(1) N(3,4) show ?thesis by (intro exI [of _ N]) simp
qed

text \<open>From \<open>2 ^ 52\<close> on every binary64 value is an integer, and is returned as it is.\<close>

lemma is_double_large:
  assumes "is_double w" "2 ^ 52 \<le> \<bar>w\<bar>"
  shows "\<exists>N. w = of_int N"
proof -
  have w0: "w \<noteq> 0" using assms(2) by auto
  from is_double_decomp [OF assms(1) w0] obtain k
    where k: "w = of_int k * 2 powi ulp_exp w" by blast
  have "0 < \<bar>w\<bar>" using w0 by simp
  from ilog2_bounds(2) [OF this] have "\<bar>w\<bar> < 2 powi (ilog2 \<bar>w\<bar> + 1)" .
  moreover have "(2::rat) powi 52 \<le> \<bar>w\<bar>" using assms(2) by simp
  ultimately have "(2::rat) powi 52 < 2 powi (ilog2 \<bar>w\<bar> + 1)" by linarith
  then have "52 < ilog2 \<bar>w\<bar> + 1" by (simp only: p2_less_iff)
  then have q: "0 \<le> ulp_exp w" by (simp add: ulp_exp_def)
  then have "(2::rat) powi ulp_exp w = of_int (2 ^ nat (ulp_exp w))" by (rule p2_nat)
  then have "w = of_int (k * 2 ^ nat (ulp_exp w))" using k by simp
  then show ?thesis ..
qed

lemma loki_round_large: "2 ^ 52 \<le> \<bar>w\<bar> \<Longrightarrow> loki_round (Fin w) = Fin w"
  by (auto simp: loki_round_def fgt_def TWO_MANT_DIG_eq abs_if split: if_splits)

text \<open>
  \<^verbatim>\<open>loki::round\<close> on every finite double: the result holds an integer \<open>K\<close> at distance at
  most \<open>1 / 2\<close> from the argument, the one of larger magnitude when the distance is \<open>1 / 2\<close>;
  it is the negative zero exactly for the arguments of negative sign above \<open>- 1 / 2\<close>.
\<close>

lemma loki_round_correct:
  assumes "finite_double x"
  shows "\<exists>K. int_valued (loki_round x) K \<and> \<bar>of_int K - rat_of x\<bar> \<le> 1 / 2
           \<and> (\<bar>of_int K - rat_of x\<bar> = 1 / 2 \<longrightarrow> \<bar>rat_of x\<bar> < \<bar>of_int K\<bar>)
           \<and> (loki_round x = NegZero \<longleftrightarrow> sign_bit x \<and> - (1 / 2) < rat_of x)"
proof (cases x)
  case (Fin w)
  with assms have d: "is_double w" by simp
  have "w = 0 \<or> (0 < w \<and> w < 1 / 2) \<or> (w < 0 \<and> - (1 / 2) < w)
    \<or> (1 / 2 \<le> w \<and> w < 2 ^ 52) \<or> (w \<le> - (1 / 2) \<and> - (2 ^ 52) < w) \<or> 2 ^ 52 \<le> \<bar>w\<bar>"
    by (simp add: abs_if) linarith
  then consider "w = 0" | "0 < w" "w < 1 / 2" | "w < 0" "- (1 / 2) < w"
    | "1 / 2 \<le> w" "w < 2 ^ 52" | "w \<le> - (1 / 2)" "- (2 ^ 52) < w" | "2 ^ 52 \<le> \<bar>w\<bar>"
    by blast
  then show ?thesis
  proof cases
    case 1
    with Fin show ?thesis by (intro exI [of _ 0]) (simp add: int_valued_def loki_round_small)
  next
    case 2
    with Fin show ?thesis by (intro exI [of _ 0]) (simp add: int_valued_def loki_round_small)
  next
    case 3
    with Fin show ?thesis by (intro exI [of _ 0]) (simp add: int_valued_def loki_round_small)
  next
    case 4
    from loki_round_pos_exact [OF d 4] obtain N
      where N: "loki_round (Fin w) = Fin (of_int N)" "w - 1 / 2 < of_int N" "of_int N \<le> w + 1 / 2"
      by blast
    from N(2,3) 4(1) have a: "\<bar>of_int N - w\<bar> \<le> 1 / 2" "\<bar>of_int N - w\<bar> = 1 / 2 \<longrightarrow> \<bar>w\<bar> < \<bar>of_int N\<bar>"
      by (auto simp: abs_if split: if_splits)
    from 4(1) have "\<not> w < 0" by simp
    with N(1) a Fin show ?thesis by (intro exI [of _ N]) (simp add: int_valued_def)
  next
    case 5
    from loki_round_neg_exact [OF d 5] obtain N
      where N: "loki_round (Fin w) = Fin (of_int N)" "w - 1 / 2 \<le> of_int N" "of_int N < w + 1 / 2"
      by blast
    from N(2,3) 5(1) have a: "\<bar>of_int N - w\<bar> \<le> 1 / 2" "\<bar>of_int N - w\<bar> = 1 / 2 \<longrightarrow> \<bar>w\<bar> < \<bar>of_int N\<bar>"
      by (auto simp: abs_if split: if_splits)
    from 5(1) have "\<not> - (1 / 2) < w" by simp
    with N(1) a Fin show ?thesis by (intro exI [of _ N]) (simp add: int_valued_def)
  next
    case 6
    from is_double_large [OF d 6] obtain N where N: "w = of_int N" ..
    have "(1::rat) \<le> 2 ^ 52" by simp
    with 6 have "\<not> - (1 / 2) < w \<or> \<not> w < 0" by linarith
    with loki_round_large [OF 6] N Fin show ?thesis
      by (intro exI [of _ N]) (auto simp: int_valued_def)
  qed
next
  case NegZero
  then show ?thesis by (intro exI [of _ 0]) (simp add: int_valued_def loki_round_small)
qed (use assms in simp_all)

lemma loki_round_not_finite:
  "loki_round PInf = PInf" "loki_round NInf = NInf" "loki_round NaN = NaN"
  by (simp_all add: loki_round_def fgt_def TWO_MANT_DIG_eq)

section \<open>Properties of \<^verbatim>\<open>loki::exp2\<close>\<close>

subsection \<open>The decomposition of \<open>x\<close>\<close>

lemma fdiv_1_256: "fdiv (Fin 1) (Fin 256) = Fin (1 / 256)"
proof -
  have "is_double (of_int 1 / 256)" by (rule is_double_256th) simp
  then have "round_double (1 / 256) = Fin (1 / 256)" using round_double_exact by simp
  then show ?thesis by (simp add: fdiv_def)
qed

lemma exp2_nm_int:
  assumes "finite_double x" "\<not> fgt x (Fin 1024)" "\<not> flt x (Fin (- 1075))"
  shows "\<exists>K. int_valued (exp2_nm x) K \<and> \<bar>K\<bar> \<le> 275201"
proof (cases x)
  case (Fin v)
  with assms have d: "is_double v" and b: "v \<le> 1024" "- 1075 \<le> v" by (simp_all add: fgt_def)
  show ?thesis
  proof (cases "v = 0")
    case True
    with Fin have "exp2_nm x = Fin 0"
      by (simp add: exp2_nm_def fmul_def signed_zero_def loki_round_small)
    then show ?thesis by (intro exI [of _ 0]) (simp add: int_valued_def)
  next
    case False
    from b have a: "\<bar>v\<bar> \<le> 1075" by (simp add: abs_if)
    have "round_double (v * 256) = Fin (v * 256)"
      by (rule round_double_exact) (rule is_double_scale [OF d a])
    with False Fin have nm: "exp2_nm x = loki_round (Fin (v * 256))"
      by (simp add: exp2_nm_def fmul_def)
    from a have w: "\<bar>v * 256\<bar> \<le> 275200" by (simp add: abs_mult)
    then have "\<bar>v * 256\<bar> \<le> 2 ^ 50" by simp
    from loki_round_bounded [OF this] obtain K
      where K: "int_valued (loki_round (Fin (v * 256))) K" "\<bar>of_int K\<bar> \<le> \<bar>v * 256\<bar> + 1" by blast
    from K(2) w have "(of_int \<bar>K\<bar> :: rat) \<le> of_int 275201" by simp
    then have "\<bar>K\<bar> \<le> 275201" by (simp only: of_int_le_iff)
    with K(1) nm show ?thesis by auto
  qed
next
  case NegZero
  then have "exp2_nm x = NegZero"
    by (simp add: exp2_nm_def fmul_def signed_zero_def loki_round_small)
  then show ?thesis by (intro exI [of _ 0]) (simp add: int_valued_def)
qed (use assms in simp_all)

lemma exp2_n_near:
  assumes "int_valued nm K" "\<bar>K\<bar> \<le> 275201"
  shows "\<exists>n. d2i (loki_round (fmul nm (fdiv (Fin 1) (Fin 256)))) = Inr n
             \<and> \<bar>of_int n - of_int K / 256\<bar> \<le> (1 / 2 :: rat)"
proof (cases "K = 0")
  case True
  with assms(1) have "nm = Fin 0 \<or> nm = NegZero" by (auto simp: int_valued_def)
  then have "d2i (loki_round (fmul nm (fdiv (Fin 1) (Fin 256)))) = Inr 0"
    by (auto simp: fdiv_1_256 fmul_def signed_zero_def loki_round_small d2i_def)
  with True show ?thesis by simp
next
  case False
  with assms(1) have nm: "nm = Fin (of_int K)" by (simp add: int_valued_def)
  let ?t = "of_int K / 256 :: rat"
  have k53: "\<bar>K\<bar> < 2 ^ 53" "\<bar>K + 128\<bar> < 2 ^ 53" "\<bar>K - 128\<bar> < 2 ^ 53" using assms(2) by simp_all
  have "round_double ?t = Fin ?t"
    by (rule round_double_exact) (rule is_double_256th [OF k53(1)])
  with False nm have m: "fmul nm (fdiv (Fin 1) (Fin 256)) = Fin ?t"
    by (simp add: fdiv_1_256 fmul_def)
  have "(of_int \<bar>K\<bar> :: rat) \<le> of_int 275201" using assms(2) by (simp only: of_int_le_iff)
  then have t: "\<bar>?t\<bar> \<le> 1076" by simp
  then have t50: "\<bar>?t\<bar> \<le> 2 ^ 50" by simp
  have "?t + 1 / 2 = of_int (K + 128) / 256" "?t - 1 / 2 = of_int (K - 128) / 256" by simp_all
  then have h: "is_double (?t + 1 / 2)" "is_double (?t - 1 / 2)"
    using is_double_256th [OF k53(2)] is_double_256th [OF k53(3)] by (simp_all only:)
  from loki_round_nearest [OF t50 h] obtain n
    where n: "int_valued (loki_round (Fin ?t)) n" "\<bar>of_int n - ?t\<bar> \<le> 1 / 2" by blast
  from n(2) t have "(of_int (- 1077) :: rat) \<le> of_int n" "(of_int n :: rat) \<le> of_int 1077"
    by (auto simp: abs_if split: if_splits)
  then have "- 1077 \<le> n" "n \<le> 1077" by (simp_all only: of_int_le_iff)
  then have "d2i (loki_round (Fin ?t)) = Inr n"
    by (intro d2i_int_valued [OF n(1)]) simp_all
  with m n(2) show ?thesis by simp
qed

lemma exp2_decomposition:
  assumes "finite_double x" "\<not> fgt x (Fin 1024)" "\<not> flt x (Fin (- 1075))"
  shows "\<exists>K n. int_valued (exp2_nm x) K \<and> exp2_n x = Inr n \<and> exp2_m x = Inr (K - 256 * n)
               \<and> \<bar>K - 256 * n\<bar> \<le> 128 \<and> \<bar>n\<bar> \<le> 1076"
proof -
  from exp2_nm_int [OF assms] obtain K
    where K: "int_valued (exp2_nm x) K" "\<bar>K\<bar> \<le> 275201" by blast
  from exp2_n_near [OF K] obtain n
    where n: "exp2_n x = Inr n" "\<bar>of_int n - of_int K / 256\<bar> \<le> (1 / 2 :: rat)"
    by (auto simp: exp2_n_def)
  have "(of_int (K - 256 * n) :: rat) = - 256 * (of_int n - of_int K / 256)" by simp
  then have "\<bar>of_int (K - 256 * n) :: rat\<bar> = 256 * \<bar>of_int n - of_int K / 256\<bar>"
    by (simp only: abs_mult abs_minus abs_numeral)
  with n(2) have "(of_int \<bar>K - 256 * n\<bar> :: rat) \<le> of_int 128" by simp
  then have m: "\<bar>K - 256 * n\<bar> \<le> 128" by (simp only: of_int_le_iff)
  with K(2) have nb: "\<bar>n\<bar> \<le> 1076" by (simp add: abs_if split: if_splits)
  have a: "d2i (exp2_nm x) = Inr K"
    by (rule d2i_int_valued [OF K(1)]) (use K(2) in simp_all)
  have "exp2_m x = Inr (K - 256 * n)"
    using n(1) a nb m by (simp add: exp2_m_def int_result_def abs_if split: if_splits)
  with K(1) n(1) m nb show ?thesis by blast
qed

lemma exp_table_in_bounds: "0 \<le> i \<Longrightarrow> i \<le> 256 \<Longrightarrow> \<exists>t. exp_table i = Inr t"
  by (simp add: exp_table_def)

subsection \<open>The constants\<close>

lemma rne_eval:
  assumes "of_int k - 1 / 2 < s" "s < of_int k + 1 / 2"
  shows "rne s = k"
proof -
  have "\<bar>of_int (rne s) - s\<bar> \<le> 1 / 2" by (rule rne_error)
  with assms have "(of_int (k - 1) :: rat) < of_int (rne s)" "(of_int (rne s) :: rat) < of_int (k + 1)"
    by (auto simp: abs_if split: if_splits)
  then have "k - 1 < rne s" "rne s < k + 1" by (simp_all only: of_int_less_iff)
  then show ?thesis by simp
qed

lemma LOG2_BY_256_eq: "LOG2_BY_256 = Fin (6243314768165359 / 2 ^ 61)"
proof -
  have "round_double (of_int 270760617406228636491106297444600221904 / 10 ^ 41)
          = Fin (of_int 6243314768165359 * 2 powi (- 61))"
    by (rule round_double_eval [where e = "- 9"]) (simp_all add: rne_eval)
  then show ?thesis by (simp add: LOG2_BY_256_def dlit_def)
qed

lemma TANH_COEFF_5_eq: "TANH_COEFF_5 = Fin (4803839602528529 / 2 ^ 55)"
proof -
  have "round_double (of_int 133333333333333333333333333333333333334 / 10 ^ 39)
          = Fin (of_int 4803839602528529 * 2 powi (- 55))"
    by (rule round_double_eval [where e = "- 3"]) (simp_all add: rne_eval)
  then show ?thesis by (simp add: TANH_COEFF_5_def dlit_def)
qed

lemma TANH_COEFF_3_eq: "TANH_COEFF_3 = Fin (- (6004799503160661 / 2 ^ 54))"
proof -
  have "round_double (of_int 333333333333333333333333333333333333334 / 10 ^ 39)
          = Fin (of_int 6004799503160661 * 2 powi (- 54))"
    by (rule round_double_eval [where e = "- 2"]) (simp_all add: rne_eval)
  then show ?thesis by (simp add: TANH_COEFF_3_def dlit_def)
qed

lemma TANH_COEFF_1_eq: "TANH_COEFF_1 = Fin 1"
  by (simp add: TANH_COEFF_1_def dlit_def round_double_one)

lemma exp_table_128: "exp_table 128 = Inr (Fin 1)"
  by (simp add: exp_table_def exp_table_literals_def dlit_def round_double_one)

subsection \<open>Integer arguments\<close>

lemma fsub_self: "fsub (Fin a) (Fin a) = Fin 0"
  by (simp add: fsub_def round_double_def)

lemma fmul_zero_left: "0 < c \<Longrightarrow> fmul (Fin 0) (Fin c) = Fin 0"
  by (simp add: fmul_def signed_zero_def)

lemma half_LOG2_BY_256: "fmul LOG2_BY_256 (Fin (1 / 2)) = Fin (6243314768165359 / 2 ^ 62)"
proof -
  have "is_double (of_int 6243314768165359 * 2 powi (- 62))"
    by (rule is_double_dyadic) simp_all
  then have "round_double (6243314768165359 / 2 ^ 62) = Fin (6243314768165359 / 2 ^ 62)"
    using round_double_exact by simp
  then show ?thesis by (simp add: LOG2_BY_256_eq fmul_def)
qed

text \<open>With \<^verbatim>\<open>z == 0.0\<close> the polynomial and the quotient are exact: \<^verbatim>\<open>exp_y == 1.0\<close>.\<close>

lemma exp2_tanh_z_zero:
  assumes "exp2_z x = Fin 0"
  shows "exp2_tanh_z x = Fin 0"
proof -
  have "is_double (of_int (- 6004799503160661) * 2 powi (- 54))"
    by (rule is_double_dyadic) simp_all
  then have c3: "round_double (- (6004799503160661 / 2 ^ 54)) = Fin (- (6004799503160661 / 2 ^ 54))"
    using round_double_exact by simp
  have z2: "fmul (Fin 0) (Fin 0) = Fin 0" by (simp add: fmul_def signed_zero_def)
  have a: "fmul TANH_COEFF_5 (Fin 0) = Fin 0"
    by (simp add: TANH_COEFF_5_eq fmul_def signed_zero_def)
  have b: "fadd (Fin 0) TANH_COEFF_3 = Fin (- (6004799503160661 / 2 ^ 54))"
    using c3 by (simp add: TANH_COEFF_3_eq)
  have c: "fmul (Fin (- (6004799503160661 / 2 ^ 54))) (Fin 0) = NegZero"
    by (simp add: fmul_def signed_zero_def)
  have d: "fadd NegZero TANH_COEFF_1 = Fin 1" by (simp add: TANH_COEFF_1_eq)
  have e: "fmul (Fin 1) (Fin 0) = Fin 0" by (simp add: fmul_def signed_zero_def)
  show ?thesis unfolding exp2_tanh_z_def Let_def assms by (simp only: z2 a b c d e)
qed

lemma exp2_exp_y_zero:
  assumes "exp2_z x = Fin 0"
  shows "exp2_exp_y x = Fin 1"
  by (simp add: exp2_exp_y_def exp2_tanh_z_zero [OF assms] fsub_def fdiv_def round_double_one)

lemma d2i_of_int: "- (2 ^ 31) \<le> K \<Longrightarrow> K \<le> 2 ^ 31 - 1 \<Longrightarrow> d2i (Fin (of_int K)) = Inr K"
  by (simp add: d2i_def)

lemma exp2_nm_integer:
  assumes "\<bar>N\<bar> \<le> 1075"
  shows "exp2_nm (Fin (of_int N)) = Fin (of_int (256 * N))"
proof -
  have "\<bar>N * 256\<bar> < 2 ^ 53" using assms by simp
  from round_double_int [OF this] have "round_double (of_int N * 256) = Fin (of_int N * 256)"
    by simp
  then have "fmul (Fin (of_int N)) (Fin 256) = Fin (of_int (256 * N))"
    by (simp add: fmul_def signed_zero_def)
  moreover have "loki_round (Fin (of_int (256 * N))) = Fin (of_int (256 * N))"
    by (rule loki_round_integer) (use assms in simp)
  ultimately show ?thesis by (simp only: exp2_nm_def)
qed

lemma exp2_z_integer:
  assumes "\<bar>N\<bar> \<le> 1075"
  shows "exp2_z (Fin (of_int N)) = Fin 0"
proof -
  have "\<bar>N * 256\<bar> < 2 ^ 53" using assms by simp
  from round_double_int [OF this] have "round_double (of_int N * 256) = Fin (of_int N * 256)"
    by simp
  then have "fmul (Fin (of_int N)) (Fin 256) = Fin (of_int (256 * N))"
    by (simp add: fmul_def signed_zero_def)
  then show ?thesis
    by (simp only: exp2_z_def exp2_nm_integer [OF assms] fsub_self half_LOG2_BY_256)
       (simp add: fmul_zero_left)
qed

lemma exp2_n_integer:
  assumes "\<bar>N\<bar> \<le> 1075"
  shows "exp2_n (Fin (of_int N)) = Inr N"
proof -
  have "round_double (of_int N) = Fin (of_int N)"
    by (rule round_double_int) (use assms in simp)
  then have "fmul (Fin (of_int (256 * N))) (Fin (1 / 256)) = Fin (of_int N)"
    by (simp add: fmul_def signed_zero_def)
  moreover have "loki_round (Fin (of_int N)) = Fin (of_int N)"
    by (rule loki_round_integer) (use assms in simp)
  moreover have "d2i (Fin (of_int N)) = Inr N" by (rule d2i_of_int) (use assms in \<open>simp_all add: abs_le_iff\<close>)
  ultimately show ?thesis by (simp only: exp2_n_def exp2_nm_integer [OF assms] fdiv_1_256)
qed

lemma exp2_m_integer:
  assumes "\<bar>N\<bar> \<le> 1075"
  shows "exp2_m (Fin (of_int N)) = Inr 0"
proof -
  have r: "- (2 ^ 31) \<le> 256 * N" "256 * N \<le> 2 ^ 31 - 1" using assms by (simp_all add: abs_le_iff)
  have "d2i (Fin (of_int (256 * N))) = Inr (256 * N)" by (rule d2i_of_int [OF r])
  moreover have "int_result (256 * N) = Inr (256 * N)" using r by (simp add: int_result_def)
  moreover have "int_result (256 * N - 256 * N) = Inr 0" by (simp add: int_result_def)
  ultimately show ?thesis
    by (simp only: exp2_m_def exp2_n_integer [OF assms] exp2_nm_integer [OF assms] sum.case)
qed

text \<open>
  At an integer \<open>N\<close> in the range that does not saturate, the result of \<^verbatim>\<open>loki::exp2\<close> is
  what the doubling loop makes of \<open>1.0\<close>.
\<close>

lemma exp2_integer:
  assumes "- 1075 \<le> N" "N \<le> 1024"
  shows "loki_exp2 (Fin (of_int N)) = Inr (scale_loop 0 N (Fin 1))"
proof -
  from assms have a: "\<bar>N\<bar> \<le> 1075" by simp
  have "(of_int N :: rat) \<le> of_int 1024" "(of_int (- 1075) :: rat) \<le> of_int N"
    using assms by (simp_all only: of_int_le_iff)
  then have g: "\<not> fgt (Fin (of_int N)) (i2d DBL_MAX_EXP)"
    "\<not> flt (Fin (of_int N)) (i2d (DBL_MIN_EXP - 1 - DBL_MANT_DIG))"
    by (simp_all add: exp2_bounds_eq fgt_def)
  have "fmul (Fin 1) (Fin 1) = Fin 1" by (simp add: fmul_def round_double_one)
  then show ?thesis
    by (simp add: loki_exp2_def g exp2_n_integer [OF a] exp2_m_integer [OF a] int_result_def
        exp_table_128 exp2_exp_y_zero [OF exp2_z_integer [OF a]])
qed

text \<open>The loop doubles \<open>n - i\<close> times when \<open>i < n\<close> and not at all otherwise.\<close>

lemma scale_loop_none: "n \<le> i \<Longrightarrow> scale_loop i n ret = ret"
  by (subst scale_loop.simps) simp

lemma fmul_two_power:
  assumes "k < 1023"
  shows "fmul (Fin (2 ^ k)) (Fin 2) = Fin (2 ^ Suc k)"
proof -
  have "(2::rat) powi (int (Suc k)) = 2 ^ Suc k" by (rule power_int_of_nat)
  then have e: "\<bar>of_int 1 * 2 powi (int (Suc k)) :: rat\<bar> = 2 ^ Suc k"
    by (simp only: of_int_1 mult_1 power_abs abs_numeral)
  have "(2::rat) ^ Suc k < 2 ^ 1024" using assms by (intro power_strict_increasing) simp_all
  then have "\<bar>of_int 1 * 2 powi (int (Suc k)) :: rat\<bar> < 2 ^ 1024" by (simp only: e)
  then have "is_double (of_int 1 * 2 powi (int (Suc k)))" by (intro is_double_dyadic) simp_all
  then have "is_double (2 ^ Suc k)" by (simp only: of_int_1 mult_1 power_int_of_nat)
  then have "round_double (2 ^ Suc k) = Fin (2 ^ Suc k)" by (rule round_double_exact)
  moreover have "(2::rat) ^ k * 2 = 2 ^ Suc k" by simp
  ultimately have "round_double (2 ^ k * 2) = Fin (2 ^ Suc k)" by (simp only:)
  then show ?thesis by (simp add: fmul_def del: power_Suc)
qed

lemma scale_loop_powers:
  assumes "i \<le> n" "k + nat (n - i) \<le> 1023"
  shows "scale_loop i n (Fin (2 ^ k)) = Fin (2 ^ (k + nat (n - i)))"
  using assms
proof (induction "nat (n - i)" arbitrary: i k)
  case 0
  then have "n \<le> i" by simp
  with 0 show ?case by (simp add: scale_loop_none)
next
  case (Suc d)
  then have lt: "i < n" and d: "d = nat (n - (i + 1))" by simp_all
  from Suc.prems Suc.hyps(2) have k: "k < 1023" by simp
  have "scale_loop i n (Fin (2 ^ k)) = scale_loop (i + 1) n (Fin (2 ^ Suc k))"
    using lt by (subst scale_loop.simps) (simp add: fmul_two_power [OF k])
  also have "\<dots> = Fin (2 ^ (Suc k + nat (n - (i + 1))))"
    by (rule Suc.hyps(1) [OF d]) (use Suc.prems lt in simp_all)
  also have "Suc k + nat (n - (i + 1)) = k + nat (n - i)" using lt by simp
  finally show ?case .
qed

lemma exp2_nonneg_integer:
  assumes "0 \<le> N" "N \<le> 1023"
  shows "loki_exp2 (Fin (of_int N)) = Inr (Fin (2 ^ nat N))"
proof -
  have "scale_loop 0 N (Fin (2 ^ 0)) = Fin (2 ^ (0 + nat (N - 0)))"
    by (rule scale_loop_powers) (use assms in simp_all)
  then show ?thesis using exp2_integer [of N] assms by simp
qed

lemma exp2_negative_integer:
  assumes "- 1075 \<le> N" "N < 0"
  shows "loki_exp2 (Fin (of_int N)) = Inr (Fin 1)"
  using exp2_integer [of N] assms by (simp add: scale_loop_none)

section \<open>The claims about \<^verbatim>\<open>loki::round\<close> and \<^verbatim>\<open>loki::exp2\<close>\<close>

text \<open>
  C1: for every integer \<open>n\<close> from -20 to 20, \<^verbatim>\<open>exp2\<close> of the double \<open>n\<close> is \<open>2 ^ n\<close>, also for
  negative \<open>n\<close>. For \<open>0 \<le> n \<le> 1023\<close> it is (\<open>exp2_nonneg_integer\<close>). For a negative \<open>n\<close> the
  loop \<^verbatim>\<open>for (int i = 0; i < n; i++) ret *= 2;\<close> does not run and nothing divides, so the
  result is \<open>1.0\<close> (\<open>exp2_negative_integer\<close>): \<^verbatim>\<open>exp2(-1.0)\<close> and \<^verbatim>\<open>exp2(-20.0)\<close> are \<open>1.0\<close>, not
  \<open>0.5\<close> and \<open>2 powi (- 20)\<close>.
\<close>

theorem exp2_of_negative_integer_is_one:
  "loki_exp2 (Fin (- 1)) = Inr (Fin 1) \<and> loki_exp2 (Fin (- 20)) = Inr (Fin 1)"
  using exp2_negative_integer [of "- 1"] exp2_negative_integer [of "- 20"] by simp

text \<open>
  C4: \<^verbatim>\<open>exp2\<close> saturates: for every double \<open>x\<close> (an infinity included) with
  \<^verbatim>\<open>x > DBL_MAX_EXP\<close> the result is positive infinity, and with
  \<^verbatim>\<open>x < DBL_MIN_EXP - 1 - DBL_MANT_DIG\<close> it is \<open>+0.0\<close>.
\<close>

theorem exp2_saturates:
  "(fgt x (i2d DBL_MAX_EXP) \<longrightarrow> loki_exp2 x = Inr PInf)
   \<and> (flt x (i2d (DBL_MIN_EXP - 1 - DBL_MANT_DIG)) \<longrightarrow> loki_exp2 x = Inr (Fin 0))"
proof (intro conjI impI)
  assume "fgt x (i2d DBL_MAX_EXP)"
  then show "loki_exp2 x = Inr PInf" by (simp add: loki_exp2_def HUGE_VAL_def)
next
  assume a: "flt x (i2d (DBL_MIN_EXP - 1 - DBL_MANT_DIG))"
  then have "flt x (Fin (- 1075))" by (simp only: exp2_bounds_eq)
  then have "\<not> fgt x (Fin 1024)" by (rule flt_not_fgt) simp
  then have "\<not> fgt x (i2d DBL_MAX_EXP)" by (simp add: exp2_bounds_eq)
  with a show "loki_exp2 x = Inr (Fin 0)" by (simp add: loki_exp2_def)
qed

theorem exp2_saturates_witness:
  "fgt (Fin 1025) (i2d DBL_MAX_EXP) \<and> loki_exp2 (Fin 1025) = Inr PInf
   \<and> fgt PInf (i2d DBL_MAX_EXP) \<and> loki_exp2 PInf = Inr PInf
   \<and> flt (Fin (- 1076)) (i2d (DBL_MIN_EXP - 1 - DBL_MANT_DIG)) \<and> loki_exp2 (Fin (- 1076)) = Inr (Fin 0)
   \<and> flt NInf (i2d (DBL_MIN_EXP - 1 - DBL_MANT_DIG)) \<and> loki_exp2 NInf = Inr (Fin 0)"
proof -
  have h: "fgt (Fin 1025) (i2d DBL_MAX_EXP)" "fgt PInf (i2d DBL_MAX_EXP)"
    "flt (Fin (- 1076)) (i2d (DBL_MIN_EXP - 1 - DBL_MANT_DIG))"
    "flt NInf (i2d (DBL_MIN_EXP - 1 - DBL_MANT_DIG))"
    by (simp_all add: exp2_bounds_eq fgt_def)
  with exp2_saturates [of "Fin 1025"] exp2_saturates [of PInf]
    exp2_saturates [of "Fin (- 1076)"] exp2_saturates [of NInf]
  show ?thesis by blast
qed

text \<open>
  C6: \<^verbatim>\<open>round\<close> rounds to the nearest integer, ties away from zero. For every finite double
  \<open>x\<close> the result holds an integer \<open>K\<close> with \<open>\<bar>K - x\<bar> \<le> 1 / 2\<close>, and where the distance is
  \<open>1 / 2\<close> the integer is the one of larger magnitude; the result is the negative zero exactly
  for an \<open>x\<close> of negative sign above \<open>- 1 / 2\<close>. In particular \<^verbatim>\<open>round(0.5) == 1.0\<close>,
  \<^verbatim>\<open>round(-0.5) == -1.0\<close>, \<^verbatim>\<open>round(2.5) == 3.0\<close> and \<^verbatim>\<open>round(-2.5) == -3.0\<close>. An infinity
  and a NaN are returned as they are.
\<close>

theorem round_ties_away_from_zero:
  "(finite_double x \<longrightarrow>
      (\<exists>K. int_valued (loki_round x) K \<and> \<bar>of_int K - rat_of x\<bar> \<le> 1 / 2
         \<and> (\<bar>of_int K - rat_of x\<bar> = 1 / 2 \<longrightarrow> \<bar>rat_of x\<bar> < \<bar>of_int K\<bar>)
         \<and> (loki_round x = NegZero \<longleftrightarrow> sign_bit x \<and> - (1 / 2) < rat_of x)))
   \<and> loki_round (Fin (1 / 2)) = Fin 1 \<and> loki_round (Fin (- (1 / 2))) = Fin (- 1)
   \<and> loki_round (Fin (5 / 2)) = Fin 3 \<and> loki_round (Fin (- (5 / 2))) = Fin (- 3)
   \<and> loki_round PInf = PInf \<and> loki_round NInf = NInf \<and> loki_round NaN = NaN"
  using loki_round_correct [of x] loki_round_tie [of 0] loki_round_tie [of 2]
    loki_round_not_finite by simp

text \<open>
  The witness applies the general part at \<open>1.25\<close> (the nearest integer is 1), at the tie
  \<open>-3.5\<close> (which goes to -4) and at \<open>-0.25\<close> (the negative zero).
\<close>

theorem round_ties_away_from_zero_witness:
  "finite_double (Fin (5 / 4)) \<and> loki_round (Fin (5 / 4)) = Fin 1
   \<and> finite_double (Fin (- (7 / 2))) \<and> loki_round (Fin (- (7 / 2))) = Fin (- 4)
   \<and> finite_double (Fin (- (1 / 4))) \<and> loki_round (Fin (- (1 / 4))) = NegZero"
proof -
  have "is_double (of_int 5 * 2 powi (- 2))" by (rule is_double_dyadic) simp_all
  then have f1: "finite_double (Fin (5 / 4))" by simp
  have "is_double (of_int (- 7) * 2 powi (- 1))" by (rule is_double_dyadic) simp_all
  then have f2: "finite_double (Fin (- (7 / 2)))" by simp
  have "is_double (of_int (- 1) * 2 powi (- 2))" by (rule is_double_dyadic) simp_all
  then have f3: "finite_double (Fin (- (1 / 4)))" by simp
  from round_ties_away_from_zero [of "Fin (5 / 4)"] f1 obtain K
    where K: "int_valued (loki_round (Fin (5 / 4))) K" "\<bar>of_int K - 5 / 4\<bar> \<le> (1 / 2 :: rat)"
    by auto
  from K(2) have "(of_int 0 :: rat) < of_int K" "(of_int K :: rat) < of_int 2"
    by (auto simp: abs_if split: if_splits)
  then have "0 < K" "K < 2" by (simp_all only: of_int_less_iff)
  then have "K = 1" by simp
  with K(1) have r1: "loki_round (Fin (5 / 4)) = Fin 1" by (simp add: int_valued_def)
  from round_ties_away_from_zero [of "Fin (- (7 / 2))"] f2 obtain L
    where L: "int_valued (loki_round (Fin (- (7 / 2)))) L" "\<bar>of_int L - - (7 / 2)\<bar> \<le> (1 / 2 :: rat)"
      "\<bar>of_int L - - (7 / 2)\<bar> = (1 / 2 :: rat) \<longrightarrow> \<bar>- (7 / 2)\<bar> < \<bar>of_int L :: rat\<bar>"
    by auto
  from L(2) have "(of_int (- 5) :: rat) < of_int L" "(of_int L :: rat) < of_int (- 2)"
    by (auto simp: abs_if split: if_splits)
  then have "- 5 < L" "L < - 2" by (simp_all only: of_int_less_iff)
  then have "L = - 4 \<or> L = - 3" by auto
  moreover have "L \<noteq> - 3" using L(3) by auto
  ultimately have "L = - 4" by simp
  with L(1) have r2: "loki_round (Fin (- (7 / 2))) = Fin (- 4)" by (simp add: int_valued_def)
  from round_ties_away_from_zero [of "Fin (- (1 / 4))"] f3
  have r3: "loki_round (Fin (- (1 / 4))) = NegZero" by auto
  from f1 f2 f3 r1 r2 r3 show ?thesis by simp
qed

text \<open>
  C8: \<^verbatim>\<open>exp2(0.0)\<close> is exactly \<open>1.0\<close>: \<^verbatim>\<open>nm\<close> is \<open>0\<close>, the residual \<^verbatim>\<open>z\<close> is \<open>0\<close>, the
  quotient \<^verbatim>\<open>exp_y\<close> of the polynomial is \<open>1.0\<close>, \<open>n\<close> and \<open>m\<close> are 0, the table entry at index
  128 is \<open>1.0\<close>, and the scaling loop does not run.
\<close>

theorem exp2_of_zero_is_one:
  "loki_exp2 (Fin 0) = Inr (Fin 1)
   \<and> exp2_nm (Fin 0) = Fin 0 \<and> exp2_z (Fin 0) = Fin 0 \<and> exp2_exp_y (Fin 0) = Fin 1
   \<and> exp2_n (Fin 0) = Inr 0 \<and> exp2_m (Fin 0) = Inr 0
   \<and> exp_table 128 = Inr (Fin 1) \<and> scale_loop 0 0 (Fin 1) = Fin 1"
proof -
  have z: "exp2_z (Fin 0) = Fin 0" using exp2_z_integer [of 0] by simp
  have "loki_exp2 (Fin 0) = Inr (Fin 1)" using exp2_nonneg_integer [of 0] by simp
  moreover have "exp2_nm (Fin 0) = Fin 0" using exp2_nm_integer [of 0] by simp
  moreover have "exp2_exp_y (Fin 0) = Fin 1" by (rule exp2_exp_y_zero [OF z])
  moreover have "exp2_n (Fin 0) = Inr 0" using exp2_n_integer [of 0] by simp
  moreover have "exp2_m (Fin 0) = Inr 0" using exp2_m_integer [of 0] by simp
  moreover have "scale_loop 0 0 (Fin 1) = Fin 1" by (simp add: scale_loop_none)
  ultimately show ?thesis using z exp_table_128 by simp
qed

text \<open>
  C9: for every finite double \<open>x\<close> in the range that does not saturate, the conversions to
  \<^verbatim>\<open>int\<close> are defined, \<^verbatim>\<open>nm\<close> is \<open>256 n + m\<close> with \<open>m\<close> between -128 and 128, the index
  \<open>128 + m\<close> lies between 0 and 256, the read of the 257-entry \<^verbatim>\<open>exp_table\<close> is in bounds, and
  \<^verbatim>\<open>exp2\<close> returns a value.
\<close>

theorem exp2_table_index_in_bounds:
  assumes "finite_double x" "\<not> fgt x (i2d DBL_MAX_EXP)"
    and "\<not> flt x (i2d (DBL_MIN_EXP - 1 - DBL_MANT_DIG))"
  shows "\<exists>n m t. exp2_n x = Inr n \<and> exp2_m x = Inr m \<and> - 128 \<le> m \<and> m \<le> 128
           \<and> rat_of (exp2_nm x) = of_int (256 * n + m)
           \<and> 0 \<le> 128 + m \<and> 128 + m \<le> 256 \<and> exp_table (128 + m) = Inr t
           \<and> loki_exp2 x = Inr (scale_loop 0 n (fmul t (exp2_exp_y x)))"
proof -
  from assms have b: "\<not> fgt x (Fin 1024)" "\<not> flt x (Fin (- 1075))"
    by (simp_all add: exp2_bounds_eq)
  from exp2_decomposition [OF assms(1) b] obtain K n
    where K: "int_valued (exp2_nm x) K" and n: "exp2_n x = Inr n"
      and m: "exp2_m x = Inr (K - 256 * n)" "\<bar>K - 256 * n\<bar> \<le> 128" by blast
  define m' where "m' = K - 256 * n"
  have mb: "- 128 \<le> m'" "m' \<le> 128" using m(2) by (simp_all add: m'_def abs_if split: if_splits)
  then have i: "0 \<le> 128 + m'" "128 + m' \<le> 256" by simp_all
  from exp_table_in_bounds [OF i] obtain t where t: "exp_table (128 + m') = Inr t" by blast
  have r: "rat_of (exp2_nm x) = of_int (256 * n + m')"
    using K by (auto simp: int_valued_def m'_def)
  have "loki_exp2 x = Inr (scale_loop 0 n (fmul t (exp2_exp_y x)))"
    using assms(2,3) n m(1) t mb by (simp add: loki_exp2_def m'_def [symmetric] int_result_def)
  with n m(1) mb i t r show ?thesis unfolding m'_def [symmetric] by blast
qed

text \<open>The witness is \<^verbatim>\<open>exp2(0.5)\<close>, where \<^verbatim>\<open>nm\<close> is 128, \<open>n\<close> is 1 and \<open>m\<close> is -128, the lower bound.\<close>

theorem exp2_table_index_in_bounds_witness:
  "finite_double (Fin (1 / 2)) \<and> \<not> fgt (Fin (1 / 2)) (i2d DBL_MAX_EXP)
   \<and> \<not> flt (Fin (1 / 2)) (i2d (DBL_MIN_EXP - 1 - DBL_MANT_DIG))
   \<and> exp2_nm (Fin (1 / 2)) = Fin 128 \<and> exp2_n (Fin (1 / 2)) = Inr 1
   \<and> exp2_m (Fin (1 / 2)) = Inr (- 128)
   \<and> (\<exists>t. exp_table (128 + - 128) = Inr t
          \<and> loki_exp2 (Fin (1 / 2)) = Inr (scale_loop 0 1 (fmul t (exp2_exp_y (Fin (1 / 2))))))"
proof -
  have "is_double (of_int 1 * 2 powi (- 1))" by (rule is_double_dyadic) simp_all
  then have h1: "finite_double (Fin (1 / 2))" by simp
  have h2: "\<not> fgt (Fin (1 / 2)) (i2d DBL_MAX_EXP)"
    and h3: "\<not> flt (Fin (1 / 2)) (i2d (DBL_MIN_EXP - 1 - DBL_MANT_DIG))"
    by (simp_all add: exp2_bounds_eq fgt_def)
  have "round_double (of_int 128) = Fin (of_int 128)" by (rule round_double_int) simp
  then have "fmul (Fin (1 / 2)) (Fin 256) = Fin 128" by (simp add: fmul_def)
  moreover have "loki_round (Fin 128) = Fin 128" using loki_round_integer [of 128] by simp
  ultimately have nm: "exp2_nm (Fin (1 / 2)) = Fin 128" by (simp only: exp2_nm_def)
  have "round_double (1 / 2) = Fin (1 / 2)" using h1 round_double_exact by simp
  then have "fmul (Fin 128) (Fin (1 / 256)) = Fin (1 / 2)" by (simp add: fmul_def)
  moreover have "loki_round (Fin (1 / 2)) = Fin 1" using loki_round_tie(1) [of 0] by simp
  moreover have "d2i (Fin 1) = Inr 1" by (simp add: d2i_def)
  ultimately have n: "exp2_n (Fin (1 / 2)) = Inr 1" by (simp only: exp2_n_def nm fdiv_1_256)
  have "d2i (Fin 128) = Inr 128" by (simp add: d2i_def)
  then have m: "exp2_m (Fin (1 / 2)) = Inr (- 128)"
    by (simp add: exp2_m_def n nm int_result_def)
  from exp2_table_index_in_bounds [OF h1 h2 h3] n m
  have "\<exists>t. exp_table (128 + - 128) = Inr t
          \<and> loki_exp2 (Fin (1 / 2)) = Inr (scale_loop 0 1 (fmul t (exp2_exp_y (Fin (1 / 2)))))"
    by auto
  with h1 h2 h3 nm n m show ?thesis by blast
qed

end
